theory Spec2Isabelle
  imports Complex_Main
begin

section \<open>Arrays\<close>

text \<open>
  The code of \<^verbatim>\<open>extract_colocalized_patches.py\<close> works on numpy arrays. A
  three-dimensional array is its shape (Z, Y, X) and its elements in row-major (C) order,
  the order in which \<^verbatim>\<open>argmax\<close> scans and \<^verbatim>\<open>unravel_index\<close> counts.
  A four-dimensional array (C, Z, Y, X) is the same with a leading channel axis.
\<close>

datatype error = ValueError | RuntimeError | IndexError

type_synonym shape3 = "nat \<times> nat \<times> nat"
type_synonym index3 = "nat \<times> nat \<times> nat"
type_synonym shape4 = "nat \<times> nat \<times> nat \<times> nat"
type_synonym index4 = "nat \<times> nat \<times> nat \<times> nat"

record 'a ndarray =
  shape :: shape3
  data :: "'a list"

record 'a ndarray4 =
  shape4 :: shape4
  data4 :: "'a list"

fun size3 :: "shape3 \<Rightarrow> nat" where
  "size3 (Z, Y, X) = Z * Y * X"

fun size4 :: "shape4 \<Rightarrow> nat" where
  "size4 (C, Z, Y, X) = C * (Z * Y * X)"

fun in_bounds :: "shape3 \<Rightarrow> index3 \<Rightarrow> bool" where
  "in_bounds (Z, Y, X) (z, y, x) = (z < Z \<and> y < Y \<and> x < X)"

fun in_bounds4 :: "shape4 \<Rightarrow> index4 \<Rightarrow> bool" where
  "in_bounds4 (C, Z, Y, X) (c, z, y, x) = (c < C \<and> z < Z \<and> y < Y \<and> x < X)"

text \<open>Flat position of an index, and \<^verbatim>\<open>np.unravel_index\<close>, its inverse.\<close>

fun ravel :: "shape3 \<Rightarrow> index3 \<Rightarrow> nat" where
  "ravel (Z, Y, X) (z, y, x) = (z * Y + y) * X + x"

fun unravel_index :: "shape3 \<Rightarrow> nat \<Rightarrow> index3" where
  "unravel_index (Z, Y, X) i = (i div (Y * X), (i div X) mod Y, i mod X)"

fun ravel4 :: "shape4 \<Rightarrow> index4 \<Rightarrow> nat" where
  "ravel4 (C, Z, Y, X) (c, z, y, x) = c * (Z * Y * X) + ravel (Z, Y, X) (z, y, x)"

fun unravel_index4 :: "shape4 \<Rightarrow> nat \<Rightarrow> index4" where
  "unravel_index4 (C, Z, Y, X) i =
     (case unravel_index (Z, Y, X) (i mod (Z * Y * X)) of
        (z, y, x) \<Rightarrow> (i div (Z * Y * X), z, y, x))"

definition well_formed :: "'a ndarray \<Rightarrow> bool" where
  "well_formed a = (length (data a) = size3 (shape a))"

definition well_formed4 :: "'a ndarray4 \<Rightarrow> bool" where
  "well_formed4 a = (length (data4 a) = size4 (shape4 a))"

text \<open>Reading one element (the index is in bounds wherever the code reads).\<close>

definition elem :: "'a ndarray \<Rightarrow> index3 \<Rightarrow> 'a" where
  "elem a p = data a ! ravel (shape a) p"

definition elem4 :: "'a ndarray4 \<Rightarrow> index4 \<Rightarrow> 'a" where
  "elem4 a p = data4 a ! ravel4 (shape4 a) p"

text \<open>A fresh array of a given shape, filled element by element.\<close>

definition tabulate :: "shape3 \<Rightarrow> (index3 \<Rightarrow> 'a) \<Rightarrow> 'a ndarray" where
  "tabulate sh f = \<lparr>shape = sh, data = map (\<lambda>i. f (unravel_index sh i)) [0..<size3 sh]\<rparr>"

definition tabulate4 :: "shape4 \<Rightarrow> (index4 \<Rightarrow> 'a) \<Rightarrow> 'a ndarray4" where
  "tabulate4 sh f =
     \<lparr>shape4 = sh, data4 = map (\<lambda>i. f (unravel_index4 sh i)) [0..<size4 sh]\<rparr>"

text \<open>
  Python's slice \<^verbatim>\<open>a[start:stop]\<close> on an axis of length n: a negative bound counts
  from the end, both bounds are clipped to the axis, and a stop before the start gives an
  empty slice. The result is the first index of the slice and its length.
\<close>

definition clip_index :: "nat \<Rightarrow> int \<Rightarrow> int" where
  "clip_index n i = (if i < 0 then max (i + int n) 0 else min i (int n))"

definition slice_indices :: "nat \<Rightarrow> int \<Rightarrow> int \<Rightarrow> nat \<times> nat" where
  "slice_indices n start stop =
     (let s = clip_index n start; e = clip_index n stop in (nat s, nat (e - s)))"

text \<open>\<^verbatim>\<open>a[z0:z1, y0:y1, x0:x1]\<close> and \<^verbatim>\<open>a[:, z0:z1, y0:y1, x0:x1]\<close>.\<close>

definition getslice :: "'a ndarray \<Rightarrow> int \<times> int \<Rightarrow> int \<times> int \<Rightarrow> int \<times> int \<Rightarrow> 'a ndarray" where
  "getslice a zr yr xr =
     (case shape a of (Z, Y, X) \<Rightarrow>
        (case (slice_indices Z (fst zr) (snd zr), slice_indices Y (fst yr) (snd yr),
               slice_indices X (fst xr) (snd xr)) of
           ((z0, lz), (y0, ly), (x0, lx)) \<Rightarrow>
             tabulate (lz, ly, lx) (\<lambda>(i, j, k). elem a (z0 + i, y0 + j, x0 + k))))"

definition getslice4 :: "'a ndarray4 \<Rightarrow> int \<times> int \<Rightarrow> int \<times> int \<Rightarrow> int \<times> int \<Rightarrow> 'a ndarray4" where
  "getslice4 a zr yr xr =
     (case shape4 a of (C, Z, Y, X) \<Rightarrow>
        (case (slice_indices Z (fst zr) (snd zr), slice_indices Y (fst yr) (snd yr),
               slice_indices X (fst xr) (snd xr)) of
           ((z0, lz), (y0, ly), (x0, lx)) \<Rightarrow>
             tabulate4 (C, lz, ly, lx) (\<lambda>(c, i, j, k). elem4 a (c, z0 + i, y0 + j, x0 + k))))"

text \<open>
  \<^verbatim>\<open>np.zeros(patch_size, ...)\<close>: numpy refuses a negative dimension.
\<close>

definition zeros :: "int \<times> int \<times> int \<Rightarrow> error + ('a::zero) ndarray" where
  "zeros ps =
     (case ps of (pz, py, px) \<Rightarrow>
        if pz < 0 \<or> py < 0 \<or> px < 0 then Inl ValueError
        else Inr (tabulate (nat pz, nat py, nat px) (\<lambda>_. 0)))"

definition zeros4 :: "nat \<Rightarrow> int \<times> int \<times> int \<Rightarrow> error + ('a::zero) ndarray4" where
  "zeros4 C ps =
     (case ps of (pz, py, px) \<Rightarrow>
        if pz < 0 \<or> py < 0 \<or> px < 0 then Inl ValueError
        else Inr (tabulate4 (C, nat pz, nat py, nat px) (\<lambda>_. 0)))"

text \<open>
  \<^verbatim>\<open>padded[:a0, :a1, :a2] = patch\<close> where (a0, a1, a2) is the shape of the patch.
  The target region has extent min a p on each axis. numpy accepts the assignment when, on
  each axis, the patch has the extent of the target or extent 1 (broadcasting); an extent
  1 that differs from the target's means that the target is empty. Otherwise it raises.
\<close>

definition assign_prefix :: "'a ndarray \<Rightarrow> 'a ndarray \<Rightarrow> error + 'a ndarray" where
  "assign_prefix padded patch =
     (case (shape padded, shape patch) of ((pz, py, px), (az, ay, ax)) \<Rightarrow>
        (case (snd (slice_indices pz 0 (int az)), snd (slice_indices py 0 (int ay)),
               snd (slice_indices px 0 (int ax))) of
           (tz, ty, tx) \<Rightarrow>
             if (az = tz \<or> az = 1) \<and> (ay = ty \<or> ay = 1) \<and> (ax = tx \<or> ax = 1)
             then Inr (tabulate (pz, py, px)
                        (\<lambda>(i, j, k). if i < tz \<and> j < ty \<and> k < tx then elem patch (i, j, k)
                                     else elem padded (i, j, k)))
             else Inl ValueError))"

definition assign_prefix4 :: "'a ndarray4 \<Rightarrow> 'a ndarray4 \<Rightarrow> error + 'a ndarray4" where
  "assign_prefix4 padded patch =
     (case (shape4 padded, shape4 patch) of ((pc, pz, py, px), (ac, az, ay, ax)) \<Rightarrow>
        (case (snd (slice_indices pz 0 (int az)), snd (slice_indices py 0 (int ay)),
               snd (slice_indices px 0 (int ax))) of
           (tz, ty, tx) \<Rightarrow>
             if (ac = pc \<or> ac = 1) \<and> (az = tz \<or> az = 1) \<and> (ay = ty \<or> ay = 1)
                \<and> (ax = tx \<or> ax = 1)
             then Inr (tabulate4 (pc, pz, py, px)
                        (\<lambda>(c, i, j, k). if i < tz \<and> j < ty \<and> k < tx
                                        then elem4 patch (if ac = pc then c else 0, i, j, k)
                                        else elem4 padded (c, i, j, k)))
             else Inl ValueError))"

section \<open>Patch Extractor\<close>

text \<open>
  \<^verbatim>\<open>extract_patch(volume, center, patch_size)\<close>. The code looks at
  \<^verbatim>\<open>volume.ndim == 4\<close>; the model has one constructor for each of the two cases.
  The center and the patch size are tuples of Python integers.
\<close>

datatype 'a volume = Single "'a ndarray" | Multi "'a ndarray4"

fun bounds :: "shape3 \<Rightarrow> int \<times> int \<times> int \<Rightarrow> int \<times> int \<times> int
    \<Rightarrow> (int \<times> int) \<times> (int \<times> int) \<times> (int \<times> int)" where
  "bounds (Z, Y, X) (z, y, x) (pz, py, px) =
     ((max 0 (z - pz div 2), min (int Z) (z + pz div 2)),
      (max 0 (y - py div 2), min (int Y) (y + py div 2)),
      (max 0 (x - px div 2), min (int X) (x + px div 2)))"

fun int_shape :: "shape3 \<Rightarrow> int \<times> int \<times> int" where
  "int_shape (Z, Y, X) = (int Z, int Y, int X)"

fun extract_patch :: "('a::zero) volume \<Rightarrow> int \<times> int \<times> int \<Rightarrow> int \<times> int \<times> int
    \<Rightarrow> error + 'a volume" where
  "extract_patch (Single volume) center patch_size =
     (case bounds (shape volume) center patch_size of (zr, yr, xr) \<Rightarrow>
        let patch = getslice volume zr yr xr;
            actual_size = shape patch
        in if int_shape actual_size \<noteq> patch_size
           then (case zeros patch_size of
                   Inl e \<Rightarrow> Inl e
                 | Inr padded \<Rightarrow>
                     (case assign_prefix padded patch of
                        Inl e \<Rightarrow> Inl e
                      | Inr padded' \<Rightarrow> Inr (Single padded')))
           else Inr (Single patch))"
| "extract_patch (Multi volume) center patch_size =
     (case shape4 volume of (C, sh) \<Rightarrow>
      (case bounds sh center patch_size of (zr, yr, xr) \<Rightarrow>
        let patch = getslice4 volume zr yr xr;
            actual_size = snd (shape4 patch)
        in if int_shape actual_size \<noteq> patch_size
           then (case zeros4 C patch_size of
                   Inl e \<Rightarrow> Inl e
                 | Inr padded \<Rightarrow>
                     (case assign_prefix4 padded patch of
                        Inl e \<Rightarrow> Inl e
                      | Inr padded' \<Rightarrow> Inr (Multi padded')))
           else Inr (Multi patch)))"

text \<open>
  The two bounds of the source slice along one axis (\<^verbatim>\<open>z_start\<close> and
  \<^verbatim>\<open>z_end\<close> of the code, the second one exclusive), as positions, for a
  center inside the volume.
\<close>

definition src_start :: "int \<Rightarrow> int \<Rightarrow> nat" where
  "src_start c p = nat (max 0 (c - p div 2))"

definition src_end :: "nat \<Rightarrow> int \<Rightarrow> int \<Rightarrow> nat" where
  "src_end n c p = nat (min (int n) (c + p div 2))"

text \<open>The spatial extents and the channel count of a volume, to state results.\<close>

fun spatial_shape :: "'a volume \<Rightarrow> shape3" where
  "spatial_shape (Single a) = shape a"
| "spatial_shape (Multi a) = snd (shape4 a)"

fun channels :: "'a volume \<Rightarrow> nat option" where
  "channels (Single a) = None"
| "channels (Multi a) = Some (fst (shape4 a))"

fun well_formed_volume :: "'a volume \<Rightarrow> bool" where
  "well_formed_volume (Single a) = well_formed a"
| "well_formed_volume (Multi a) = well_formed4 a"

text \<open>The element at a spatial index: of the array, or of each channel.\<close>

fun voxel :: "'a volume \<Rightarrow> nat \<Rightarrow> index3 \<Rightarrow> 'a" where
  "voxel (Single a) c p = elem a p"
| "voxel (Multi a) c p = elem4 a (c, p)"

fun channel_ok :: "'a volume \<Rightarrow> nat \<Rightarrow> bool" where
  "channel_ok (Single a) c = (c = 0)"
| "channel_ok (Multi a) c = (c < fst (shape4 a))"

section \<open>Colocalization Scorer\<close>

text \<open>
  Intensities are real numbers: the arithmetic of the model is exact where numpy's is
  floating point. \<^verbatim>\<open>min\<close> and \<^verbatim>\<open>max\<close> of a zero-size array raise
  ValueError.
\<close>

definition np_min :: "real list \<Rightarrow> error + real" where
  "np_min a = (case a of [] \<Rightarrow> Inl ValueError | x # xs \<Rightarrow> Inr (fold min xs x))"

definition np_max :: "real list \<Rightarrow> error + real" where
  "np_max a = (case a of [] \<Rightarrow> Inl ValueError | x # xs \<Rightarrow> Inr (fold max xs x))"

text \<open>\<^verbatim>\<open>(ch - ch.min()) / (ch.max() - ch.min() + 1e-10)\<close>\<close>

definition normalize :: "real ndarray \<Rightarrow> error + real ndarray" where
  "normalize ch =
     (case np_min (data ch) of
        Inl e \<Rightarrow> Inl e
      | Inr mn \<Rightarrow>
          (case np_max (data ch) of
             Inl e \<Rightarrow> Inl e
           | Inr mx \<Rightarrow>
               Inr \<lparr>shape = shape ch,
                    data = map (\<lambda>v. (v - mn) / (mx - mn + 1 / 10 ^ 10)) (data ch)\<rparr>))"

text \<open>
  \<^verbatim>\<open>np.percentile(a, q)\<close> over the flattened array, with numpy's default linear
  interpolation: q outside [0, 100] raises ValueError; otherwise the sorted values are read
  at the virtual index (n - 1) * q / 100, interpolating between its two neighbours. The
  code reaches it only with a non-empty array (\<^verbatim>\<open>min\<close> has raised before on an
  empty one, where numpy would answer nan); the model answers ValueError there.
\<close>

definition percentile :: "real list \<Rightarrow> real \<Rightarrow> error + real" where
  "percentile a q =
     (if \<not> (0 \<le> q \<and> q \<le> 100) \<or> a = [] then Inl ValueError
      else
        let s = sort a;
            n = length a;
            virtual_index = real (n - 1) * (q / 100);
            previous = nat \<lfloor>virtual_index\<rfloor>;
            next = min (previous + 1) (n - 1);
            gamma = virtual_index - real previous
        in Inr (s ! previous + (s ! next - s ! previous) * gamma))"

text \<open>\<^verbatim>\<open>ch_norm > thresh\<close>, \<^verbatim>\<open>mask.sum()\<close> and \<^verbatim>\<open>a[mask].sum()\<close>.\<close>

definition greater_mask :: "real ndarray \<Rightarrow> real \<Rightarrow> bool ndarray" where
  "greater_mask a t = \<lparr>shape = shape a, data = map (\<lambda>v. t < v) (data a)\<rparr>"

definition mask_sum :: "bool ndarray \<Rightarrow> nat" where
  "mask_sum m = length (filter (\<lambda>b. b) (data m))"

text \<open>A boolean index must have the shape of the array it indexes, else IndexError.\<close>

definition masked_sum :: "real ndarray \<Rightarrow> bool ndarray \<Rightarrow> error + real" where
  "masked_sum a m =
     (if shape m \<noteq> shape a then Inl IndexError
      else Inr (sum_list (map fst (filter snd (zip (data a) (data m))))))"

text \<open>
  \<^verbatim>\<open>mask1 & mask2\<close> with numpy's broadcasting: on each axis the extents are equal
  or one of them is 1 (that operand is then repeated along the axis); otherwise ValueError.
\<close>

definition broadcast_dim :: "nat \<Rightarrow> nat \<Rightarrow> nat option" where
  "broadcast_dim a b =
     (if a = b then Some a else if a = 1 then Some b else if b = 1 then Some a else None)"

fun broadcast_shapes :: "shape3 \<Rightarrow> shape3 \<Rightarrow> shape3 option" where
  "broadcast_shapes (Z1, Y1, X1) (Z2, Y2, X2) =
     (case (broadcast_dim Z1 Z2, broadcast_dim Y1 Y2, broadcast_dim X1 X2) of
        (Some Z, Some Y, Some X) \<Rightarrow> Some (Z, Y, X)
      | _ \<Rightarrow> None)"

definition broadcast_elem :: "'a ndarray \<Rightarrow> index3 \<Rightarrow> 'a" where
  "broadcast_elem a p =
     (case (shape a, p) of ((Z, Y, X), (z, y, x)) \<Rightarrow>
        elem a (if Z = 1 then 0 else z, if Y = 1 then 0 else y, if X = 1 then 0 else x))"

definition logical_and :: "bool ndarray \<Rightarrow> bool ndarray \<Rightarrow> error + bool ndarray" where
  "logical_and m1 m2 =
     (case broadcast_shapes (shape m1) (shape m2) of
        None \<Rightarrow> Inl ValueError
      | Some sh \<Rightarrow> Inr (tabulate sh (\<lambda>p. broadcast_elem m1 p \<and> broadcast_elem m2 p)))"

definition calculate_colocalization_score ::
    "real ndarray \<Rightarrow> real ndarray \<Rightarrow> real \<Rightarrow> error + (real \<times> bool ndarray)" where
  "calculate_colocalization_score ch1 ch2 threshold_percentile =
     (case normalize ch1 of Inl e \<Rightarrow> Inl e | Inr ch1_norm \<Rightarrow>
      (case normalize ch2 of Inl e \<Rightarrow> Inl e | Inr ch2_norm \<Rightarrow>
      (case percentile (data ch1_norm) threshold_percentile of Inl e \<Rightarrow> Inl e | Inr thresh1 \<Rightarrow>
      (case percentile (data ch2_norm) threshold_percentile of Inl e \<Rightarrow> Inl e | Inr thresh2 \<Rightarrow>
        let mask1 = greater_mask ch1_norm thresh1;
            mask2 = greater_mask ch2_norm thresh2
        in (case logical_and mask1 mask2 of Inl e \<Rightarrow> Inl e | Inr coloc_mask \<Rightarrow>
              if mask_sum mask1 > 0
              then (case masked_sum ch1_norm coloc_mask of Inl e \<Rightarrow> Inl e | Inr overlap \<Rightarrow>
                   (case masked_sum ch1_norm mask1 of Inl e \<Rightarrow> Inl e | Inr denom \<Rightarrow>
                      Inr (overlap / denom, coloc_mask)))
              else Inr (0, coloc_mask))))))"

text \<open>
  The mask of one channel on its own: what lines 32, 36 and 40 compute for the first
  channel, and lines 33, 37 and 41 for the second.
\<close>

definition threshold_mask :: "real ndarray \<Rightarrow> real \<Rightarrow> error + bool ndarray" where
  "threshold_mask ch threshold_percentile =
     (case normalize ch of Inl e \<Rightarrow> Inl e | Inr ch_norm \<Rightarrow>
      (case percentile (data ch_norm) threshold_percentile of Inl e \<Rightarrow> Inl e | Inr thresh \<Rightarrow>
         Inr (greater_mask ch_norm thresh)))"

subsection \<open>The scorer with the arithmetic left open\<close>

text \<open>
  numpy computes the scorer in the number type of each channel and in 64-bit floating
  point: results are rounded, and a fixed-width integer channel wraps around. What such
  arithmetic returns is not what the real numbers return. The same code is therefore
  written once more over an arbitrary arithmetic: the minimum and the maximum of a
  non-empty array, the normalization of one element
  \<^verbatim>\<open>(v - ch.min()) / (ch.max() - ch.min() + 1e-10)\<close>, the percentile of a non-empty
  array at a rank in [0, 100], the comparison \<^verbatim>\<open>v > thresh\<close>, the sum of an array,
  the division of two sums and the literal \<^verbatim>\<open>0.0\<close> are parameters. Which inputs
  raise, the shapes, the masks as functions of the comparisons, and which sums are
  divided, do not depend on them.
\<close>

record ('a, 'f) arith =
  min_of :: "'a list \<Rightarrow> 'a"
  max_of :: "'a list \<Rightarrow> 'a"
  rescale :: "'a \<Rightarrow> 'a \<Rightarrow> 'a \<Rightarrow> 'f"
  percentile_of :: "'f list \<Rightarrow> real \<Rightarrow> 'f"
  above :: "'f \<Rightarrow> 'f \<Rightarrow> bool"
  sum_of :: "'f list \<Rightarrow> 'f"
  ratio :: "'f \<Rightarrow> 'f \<Rightarrow> 'f"
  zero_float :: "'f"

definition normalize_in :: "('a, 'f) arith \<Rightarrow> 'a ndarray \<Rightarrow> error + 'f ndarray" where
  "normalize_in ar ch =
     (if data ch = [] then Inl ValueError
      else let mn = min_of ar (data ch); mx = max_of ar (data ch)
           in Inr \<lparr>shape = shape ch, data = map (rescale ar mn mx) (data ch)\<rparr>)"

definition percentile_in :: "('a, 'f) arith \<Rightarrow> 'f list \<Rightarrow> real \<Rightarrow> error + 'f" where
  "percentile_in ar a q =
     (if \<not> (0 \<le> q \<and> q \<le> 100) \<or> a = [] then Inl ValueError
      else Inr (percentile_of ar a q))"

definition greater_mask_in :: "('a, 'f) arith \<Rightarrow> 'f ndarray \<Rightarrow> 'f \<Rightarrow> bool ndarray" where
  "greater_mask_in ar a t = \<lparr>shape = shape a, data = map (\<lambda>v. above ar v t) (data a)\<rparr>"

definition masked_sum_in :: "('a, 'f) arith \<Rightarrow> 'f ndarray \<Rightarrow> bool ndarray \<Rightarrow> error + 'f" where
  "masked_sum_in ar a m =
     (if shape m \<noteq> shape a then Inl IndexError
      else Inr (sum_of ar (map fst (filter snd (zip (data a) (data m))))))"

definition calculate_colocalization_score_in ::
    "('a, 'f) arith \<Rightarrow> 'a ndarray \<Rightarrow> 'a ndarray \<Rightarrow> real \<Rightarrow> error + ('f \<times> bool ndarray)" where
  "calculate_colocalization_score_in ar ch1 ch2 threshold_percentile =
     (case normalize_in ar ch1 of Inl e \<Rightarrow> Inl e | Inr ch1_norm \<Rightarrow>
      (case normalize_in ar ch2 of Inl e \<Rightarrow> Inl e | Inr ch2_norm \<Rightarrow>
      (case percentile_in ar (data ch1_norm) threshold_percentile of
         Inl e \<Rightarrow> Inl e | Inr thresh1 \<Rightarrow>
      (case percentile_in ar (data ch2_norm) threshold_percentile of
         Inl e \<Rightarrow> Inl e | Inr thresh2 \<Rightarrow>
        let mask1 = greater_mask_in ar ch1_norm thresh1;
            mask2 = greater_mask_in ar ch2_norm thresh2
        in (case logical_and mask1 mask2 of Inl e \<Rightarrow> Inl e | Inr coloc_mask \<Rightarrow>
              if mask_sum mask1 > 0
              then (case masked_sum_in ar ch1_norm coloc_mask of
                      Inl e \<Rightarrow> Inl e | Inr overlap \<Rightarrow>
                   (case masked_sum_in ar ch1_norm mask1 of Inl e \<Rightarrow> Inl e | Inr denom \<Rightarrow>
                      Inr (ratio ar overlap denom, coloc_mask)))
              else Inr (zero_float ar, coloc_mask))))))"

definition threshold_mask_in :: "('a, 'f) arith \<Rightarrow> 'a ndarray \<Rightarrow> real \<Rightarrow> error + bool ndarray" where
  "threshold_mask_in ar ch threshold_percentile =
     (case normalize_in ar ch of Inl e \<Rightarrow> Inl e | Inr ch_norm \<Rightarrow>
      (case percentile_in ar (data ch_norm) threshold_percentile of
         Inl e \<Rightarrow> Inl e | Inr thresh \<Rightarrow> Inr (greater_mask_in ar ch_norm thresh)))"

text \<open>The real numbers as one such arithmetic: the scorer above.\<close>

definition exact :: "(real, real) arith" where
  "exact =
     \<lparr>min_of = (\<lambda>a. fold min (tl a) (hd a)),
      max_of = (\<lambda>a. fold max (tl a) (hd a)),
      rescale = (\<lambda>mn mx v. (v - mn) / (mx - mn + 1 / 10 ^ 10)),
      percentile_of = (\<lambda>a q.
        let s = sort a;
            n = length a;
            virtual_index = real (n - 1) * (q / 100);
            previous = nat \<lfloor>virtual_index\<rfloor>;
            next = min (previous + 1) (n - 1);
            gamma = virtual_index - real previous
        in s ! previous + (s ! next - s ! previous) * gamma),
      above = (\<lambda>v t. t < v),
      sum_of = sum_list,
      ratio = (\<lambda>a b. a / b),
      zero_float = 0\<rparr>"

section \<open>Density Mapper and Hotspot Selector\<close>

text \<open>\<^verbatim>\<open>np.ones(kernel_size)\<close>: a negative dimension raises ValueError.\<close>

definition ones :: "int \<times> int \<times> int \<Rightarrow> error + real ndarray" where
  "ones ks =
     (case ks of (kz, ky, kx) \<Rightarrow>
        if kz < 0 \<or> ky < 0 \<or> kx < 0 then Inl ValueError
        else Inr (tabulate (nat kz, nat ky, nat kx) (\<lambda>_. 1)))"

definition astype_float :: "bool ndarray \<Rightarrow> real ndarray" where
  "astype_float m = \<lparr>shape = shape m, data = map of_bool (data m)\<rparr>"

text \<open>
  \<^verbatim>\<open>scipy.ndimage.convolve(input, weights, mode='constant')\<close>, with the default
  cval 0 and origin 0: a weights array with an axis of extent 0 is refused
  (RuntimeError, "filter weights array has incorrect shape"); otherwise the output has the
  shape of the input and, on every axis, output[i] is the sum over j < k of
  weights[j] * input[i + k div 2 - j], where the input counts as 0 outside its bounds.
\<close>

definition padded_elem :: "real ndarray \<Rightarrow> int \<times> int \<times> int \<Rightarrow> real" where
  "padded_elem a p =
     (case (shape a, p) of ((Z, Y, X), (i, j, k)) \<Rightarrow>
        if 0 \<le> i \<and> i < int Z \<and> 0 \<le> j \<and> j < int Y \<and> 0 \<le> k \<and> k < int X
        then elem a (nat i, nat j, nat k) else 0)"

definition convolve :: "real ndarray \<Rightarrow> real ndarray \<Rightarrow> error + real ndarray" where
  "convolve input weights =
     (case shape weights of (kz, ky, kx) \<Rightarrow>
        if kz = 0 \<or> ky = 0 \<or> kx = 0 then Inl RuntimeError
        else Inr (tabulate (shape input)
               (\<lambda>(z, y, x). \<Sum>a\<leftarrow>[0..<kz]. \<Sum>b\<leftarrow>[0..<ky]. \<Sum>c\<leftarrow>[0..<kx].
                  elem weights (a, b, c) *
                  padded_elem input (int z + int (kz div 2) - int a,
                                     int y + int (ky div 2) - int b,
                                     int x + int (kx div 2) - int c))))"

text \<open>
  \<^verbatim>\<open>density_map.argmax()\<close>: the flat position of the first maximum in row-major
  order; ValueError on an empty array.
\<close>

fun argmax_from :: "real list \<Rightarrow> nat \<Rightarrow> nat \<Rightarrow> real \<Rightarrow> nat" where
  "argmax_from [] i best v = best"
| "argmax_from (x # xs) i best v =
     (if v < x then argmax_from xs (Suc i) i x else argmax_from xs (Suc i) best v)"

fun argmax :: "real list \<Rightarrow> error + nat" where
  "argmax [] = Inl ValueError"
| "argmax (x # xs) = Inr (argmax_from xs 1 0 x)"

text \<open>The validity check of a candidate (lines 86 to 91).\<close>

fun valid_center :: "index3 \<Rightarrow> shape3 \<Rightarrow> int \<times> int \<times> int \<Rightarrow> bool" where
  "valid_center (z, y, x) (Z, Y, X) (pz, py, px) =
     (\<not> (int z < pz div 2 \<or> int z > int Z - pz div 2) \<and>
      \<not> (int y < py div 2 \<or> int y > int Y - py div 2) \<and>
      \<not> (int x < px div 2 \<or> int x > int X - px div 2))"

text \<open>\<^verbatim>\<open>a[z0:z1, y0:y1, x0:x1] = v\<close>\<close>

definition setslice :: "'a ndarray \<Rightarrow> int \<times> int \<Rightarrow> int \<times> int \<Rightarrow> int \<times> int \<Rightarrow> 'a \<Rightarrow> 'a ndarray" where
  "setslice a zr yr xr v =
     (case shape a of (Z, Y, X) \<Rightarrow>
        (case (slice_indices Z (fst zr) (snd zr), slice_indices Y (fst yr) (snd yr),
               slice_indices X (fst xr) (snd xr)) of
           ((z0, lz), (y0, ly), (x0, lx)) \<Rightarrow>
             tabulate (Z, Y, X)
               (\<lambda>(i, j, k). if z0 \<le> i \<and> i < z0 + lz \<and> y0 \<le> j \<and> j < y0 + ly \<and>
                                x0 \<le> k \<and> k < x0 + lx
                             then v else elem a (i, j, k))))"

text \<open>The suppression of the region around a candidate (lines 97 to 103).\<close>

definition suppress :: "real ndarray \<Rightarrow> shape3 \<Rightarrow> index3 \<Rightarrow> int \<times> int \<times> int \<Rightarrow> real ndarray" where
  "suppress density_map volume_shape max_idx patch_size =
     (case bounds volume_shape (int_shape max_idx) patch_size of
        (zr, yr, xr) \<Rightarrow> setslice density_map zr yr xr 0)"

text \<open>
  One iteration of the loop (lines 82 to 103) on the density map and the centers found so
  far, and the loop itself, which runs \<^verbatim>\<open>range(num_patches)\<close>.
\<close>

definition hotspot_step :: "shape3 \<Rightarrow> int \<times> int \<times> int \<Rightarrow> real ndarray \<times> index3 list
    \<Rightarrow> error + (real ndarray \<times> index3 list)" where
  "hotspot_step volume_shape patch_size st =
     (case st of (density_map, patch_centers) \<Rightarrow>
        (case argmax (data density_map) of
           Inl e \<Rightarrow> Inl e
         | Inr i \<Rightarrow>
             let max_idx = unravel_index (shape density_map) i;
                 valid = valid_center max_idx volume_shape patch_size;
                 patch_centers' = (if valid then patch_centers @ [max_idx] else patch_centers)
             in Inr (suppress density_map volume_shape max_idx patch_size, patch_centers')))"

fun hotspot_loop :: "nat \<Rightarrow> shape3 \<Rightarrow> int \<times> int \<times> int \<Rightarrow> real ndarray \<times> index3 list
    \<Rightarrow> error + (real ndarray \<times> index3 list)" where
  "hotspot_loop 0 volume_shape patch_size st = Inr st"
| "hotspot_loop (Suc n) volume_shape patch_size st =
     (case hotspot_step volume_shape patch_size st of
        Inl e \<Rightarrow> Inl e
      | Inr st' \<Rightarrow> hotspot_loop n volume_shape patch_size st')"

definition half :: "int \<times> int \<times> int \<Rightarrow> int \<times> int \<times> int" where
  "half ps = (case ps of (pz, py, px) \<Rightarrow> (pz div 2, py div 2, px div 2))"

definition find_colocalization_hotspots ::
    "bool ndarray \<Rightarrow> int \<Rightarrow> int \<times> int \<times> int \<Rightarrow> error + index3 list" where
  "find_colocalization_hotspots coloc_mask num_patches patch_size =
     (case ones (half patch_size) of
        Inl e \<Rightarrow> Inl e
      | Inr kernel' \<Rightarrow>
          (case convolve (astype_float coloc_mask) kernel' of
             Inl e \<Rightarrow> Inl e
           | Inr density_map \<Rightarrow>
               (case hotspot_loop (nat num_patches) (shape coloc_mask) patch_size
                       (density_map, []) of
                  Inl e \<Rightarrow> Inl e
                | Inr (density_map', patch_centers) \<Rightarrow> Inr patch_centers)))"

text \<open>
  The region that \<^const>\<open>suppress\<close> writes, for a candidate inside the volume and
  half-extents that are not negative: on each axis the Python slice from
  max 0 (c - h) to min n (c + h), which holds c - h and does not hold c + h.
\<close>

fun in_box :: "shape3 \<Rightarrow> int \<times> int \<times> int \<Rightarrow> index3 \<Rightarrow> index3 \<Rightarrow> bool" where
  "in_box (Z, Y, X) (pz, py, px) (cz, cy, cx) (z, y, x) =
     (z < Z \<and> y < Y \<and> x < X \<and>
      int cz - pz div 2 \<le> int z \<and> int z < int cz + pz div 2 \<and>
      int cy - py div 2 \<le> int y \<and> int y < int cy + py div 2 \<and>
      int cx - px div 2 \<le> int x \<and> int x < int cx + px div 2)"

text \<open>
  The box of half-extent \<^verbatim>\<open>patch_size // 2\<close> centered at c, clamped to the array,
  with both of its faces: the indices of the volume at most the half-extent away from c
  on every axis.
\<close>

fun in_closed_box :: "shape3 \<Rightarrow> int \<times> int \<times> int \<Rightarrow> index3 \<Rightarrow> index3 \<Rightarrow> bool" where
  "in_closed_box (Z, Y, X) (pz, py, px) (cz, cy, cx) (z, y, x) =
     (z < Z \<and> y < Y \<and> x < X \<and>
      \<bar>int z - int cz\<bar> \<le> pz div 2 \<and> \<bar>int y - int cy\<bar> \<le> py div 2 \<and>
      \<bar>int x - int cx\<bar> \<le> px div 2)"

text \<open>
  Two boxes of half-extent \<^verbatim>\<open>patch_size // 2\<close> around two centers share a voxel
  when, on every axis, the centers are less than twice the half-extent apart.
\<close>

fun boxes_overlap :: "int \<times> int \<times> int \<Rightarrow> index3 \<Rightarrow> index3 \<Rightarrow> bool" where
  "boxes_overlap (pz, py, px) (z1, y1, x1) (z2, y2, x2) =
     (\<bar>int z1 - int z2\<bar> < 2 * (pz div 2) \<and> \<bar>int y1 - int y2\<bar> < 2 * (py div 2) \<and>
      \<bar>int x1 - int x2\<bar> < 2 * (px div 2))"

text \<open>A density map without negative values, as the convolution of a mask is.\<close>

definition nonneg :: "real ndarray \<Rightarrow> bool" where
  "nonneg d = (\<forall>v \<in> set (data d). 0 \<le> v)"

section \<open>The selector on a store\<close>

text \<open>
  To say what a call leaves unchanged, arrays live in a store and are passed by reference:
  a reference is a position in the store, allocation appends a cell, and the assignment to
  a slice of the density map overwrites the cell of the density map.
\<close>

datatype cell = BoolArray "bool ndarray" | FloatArray "real ndarray"

type_synonym heap = "cell list"

definition lookup :: "heap \<Rightarrow> nat \<Rightarrow> cell option" where
  "lookup h r = (if r < length h then Some (h ! r) else None)"

definition alloc :: "heap \<Rightarrow> cell \<Rightarrow> nat \<times> heap" where
  "alloc h c = (length h, h @ [c])"

fun hotspot_loop_heap :: "nat \<Rightarrow> shape3 \<Rightarrow> int \<times> int \<times> int \<Rightarrow> nat \<Rightarrow> heap \<times> index3 list
    \<Rightarrow> (error + index3 list) \<times> heap" where
  "hotspot_loop_heap 0 volume_shape patch_size density_ref (h, patch_centers) =
     (Inr patch_centers, h)"
| "hotspot_loop_heap (Suc n) volume_shape patch_size density_ref (h, patch_centers) =
     (case lookup h density_ref of
        Some (FloatArray density_map) \<Rightarrow>
          (case hotspot_step volume_shape patch_size (density_map, patch_centers) of
             Inl e \<Rightarrow> (Inl e, h)
           | Inr (density_map', patch_centers') \<Rightarrow>
               hotspot_loop_heap n volume_shape patch_size density_ref
                 (h[density_ref := FloatArray density_map'], patch_centers'))
      | _ \<Rightarrow> (Inl RuntimeError, h))"

text \<open>
  \<^verbatim>\<open>find_colocalization_hotspots\<close> called with a reference to the mask:
  \<^verbatim>\<open>np.ones\<close>, \<^verbatim>\<open>astype(float)\<close> and \<^verbatim>\<open>convolve\<close> each allocate their
  result. A reference that holds no boolean array is not a call the code can receive; the
  model answers RuntimeError there.
\<close>

definition find_colocalization_hotspots_heap ::
    "heap \<Rightarrow> nat \<Rightarrow> int \<Rightarrow> int \<times> int \<times> int \<Rightarrow> (error + index3 list) \<times> heap" where
  "find_colocalization_hotspots_heap h mask_ref num_patches patch_size =
     (case lookup h mask_ref of
        Some (BoolArray coloc_mask) \<Rightarrow>
          (case ones (half patch_size) of
             Inl e \<Rightarrow> (Inl e, h)
           | Inr kernel' \<Rightarrow>
               (case alloc h (FloatArray kernel') of (kernel_ref, h1) \<Rightarrow>
                (case alloc h1 (FloatArray (astype_float coloc_mask)) of (float_ref, h2) \<Rightarrow>
                 (case convolve (astype_float coloc_mask) kernel' of
                    Inl e \<Rightarrow> (Inl e, h2)
                  | Inr density_map \<Rightarrow>
                      (case alloc h2 (FloatArray density_map) of (density_ref, h3) \<Rightarrow>
                         hotspot_loop_heap (nat num_patches) (shape coloc_mask) patch_size
                           density_ref (h3, []))))))
      | _ \<Rightarrow> (Inl RuntimeError, h))"

section \<open>Facts about arrays\<close>

lemma ravel_less: "in_bounds sh p \<Longrightarrow> ravel sh p < size3 sh"
proof -
  obtain Z Y X where sh: "sh = (Z, Y, X)" by (cases sh) auto
  obtain z y x where p: "p = (z, y, x)" by (cases p) auto
  assume "in_bounds sh p"
  then have b: "z < Z" "y < Y" "x < X" by (simp_all add: sh p)
  have "z * Y + y < Z * Y"
  proof -
    have "z * Y + y < z * Y + Y" using b by simp
    also have "\<dots> = (Suc z) * Y" by simp
    also have "\<dots> \<le> Z * Y" using b by (intro mult_le_mono1) simp
    finally show ?thesis .
  qed
  then have "(z * Y + y) * X + x < (z * Y + y) * X + X" "Suc (z * Y + y) \<le> Z * Y"
    using b by simp_all
  then have "(z * Y + y) * X + x < Suc (z * Y + y) * X" "Suc (z * Y + y) * X \<le> Z * Y * X"
    by (simp, intro mult_le_mono1)
  then show ?thesis by (simp add: sh p)
qed

lemma unravel_ravel: "in_bounds sh p \<Longrightarrow> unravel_index sh (ravel sh p) = p"
proof -
  obtain Z Y X where sh: "sh = (Z, Y, X)" by (cases sh) auto
  obtain z y x where p: "p = (z, y, x)" by (cases p) auto
  assume "in_bounds sh p"
  then have b: "z < Z" "y < Y" "x < X" by (simp_all add: sh p)
  have 1: "((z * Y + y) * X + x) div X = z * Y + y" using b by simp
  have 2: "((z * Y + y) * X + x) div (Y * X) = z"
  proof -
    have "((z * Y + y) * X + x) div (Y * X) = (((z * Y + y) * X + x) div X) div Y"
      by (simp add: div_mult2_eq mult.commute)
    also have "\<dots> = z" using b by (simp add: 1)
    finally show ?thesis .
  qed
  show ?thesis using b by (simp add: sh p 1 2)
qed

lemma unravel_in_bounds: "i < size3 sh \<Longrightarrow> in_bounds sh (unravel_index sh i)"
proof -
  obtain Z Y X where sh: "sh = (Z, Y, X)" by (cases sh) auto
  assume "i < size3 sh"
  then have i: "i < Z * (Y * X)" by (simp add: sh mult.assoc)
  then have pos: "0 < Y" "0 < X" by (auto intro: Nat.gr0I)
  have "i div (Y * X) < Z" using i pos by (simp add: less_mult_imp_div_less mult.commute)
  then show ?thesis using pos by (simp add: sh)
qed

lemma ravel_unravel: "ravel sh (unravel_index sh i) = i"
proof -
  obtain Z Y X where sh: "sh = (Z, Y, X)" by (cases sh) auto
  have "i div (Y * X) * Y + i div X mod Y = i div X"
    by (metis div_mult2_eq div_mult_mod_eq mult.commute)
  then show ?thesis by (simp add: sh)
qed

lemma shape_tabulate [simp]: "shape (tabulate sh f) = sh"
  by (simp add: tabulate_def)

lemma well_formed_tabulate [simp]: "well_formed (tabulate sh f)"
  by (simp add: tabulate_def well_formed_def)

lemma elem_tabulate: "in_bounds sh p \<Longrightarrow> elem (tabulate sh f) p = f p"
  using ravel_less [of sh p] by (simp add: elem_def tabulate_def unravel_ravel)

lemma ravel4_less: "in_bounds4 sh p \<Longrightarrow> ravel4 sh p < size4 sh"
proof -
  obtain C Z Y X where sh: "sh = (C, Z, Y, X)" by (cases sh) auto
  obtain c z y x where p: "p = (c, z, y, x)" by (cases p) auto
  assume "in_bounds4 sh p"
  then have b: "c < C" "in_bounds (Z, Y, X) (z, y, x)" by (simp_all add: sh p)
  have r: "ravel (Z, Y, X) (z, y, x) < Z * Y * X" using ravel_less [OF b(2)] by simp
  then have "c * (Z * Y * X) + ravel (Z, Y, X) (z, y, x) < Suc c * (Z * Y * X)" by simp
  also have "\<dots> \<le> C * (Z * Y * X)" using b(1) by (intro mult_le_mono1) simp
  finally show ?thesis by (simp add: sh p)
qed

lemma unravel4_ravel4: "in_bounds4 sh p \<Longrightarrow> unravel_index4 sh (ravel4 sh p) = p"
proof -
  obtain C Z Y X where sh: "sh = (C, Z, Y, X)" by (cases sh) auto
  obtain c z y x where p: "p = (c, z, y, x)" by (cases p) auto
  assume "in_bounds4 sh p"
  then have b: "c < C" "in_bounds (Z, Y, X) (z, y, x)" by (simp_all add: sh p)
  have r: "ravel (Z, Y, X) (z, y, x) < Z * Y * X" using ravel_less [OF b(2)] by simp
  have u: "unravel_index (Z, Y, X) (ravel (Z, Y, X) (z, y, x)) = (z, y, x)"
    by (rule unravel_ravel [OF b(2)])
  have dm: "(c * S + r) mod S = r" "(c * S + r) div S = c" if "r < S" for r S :: nat
    using that by simp_all
  have "ravel4 sh p mod (Z * Y * X) = ravel (Z, Y, X) (z, y, x)"
       "ravel4 sh p div (Z * Y * X) = c"
    unfolding sh p ravel4.simps using dm [OF r] by blast+
  then show ?thesis using u unfolding sh p unravel_index4.simps by simp
qed

lemma shape4_tabulate4 [simp]: "shape4 (tabulate4 sh f) = sh"
  by (simp add: tabulate4_def)

lemma well_formed4_tabulate4 [simp]: "well_formed4 (tabulate4 sh f)"
  by (simp add: tabulate4_def well_formed4_def)

lemma elem4_tabulate4: "in_bounds4 sh p \<Longrightarrow> elem4 (tabulate4 sh f) p = f p"
  using ravel4_less [of sh p] by (simp add: elem4_def tabulate4_def unravel4_ravel4)

lemma axis_slice:
  assumes "0 \<le> c" "c < int n" "0 < p"
  shows "slice_indices n (max 0 (c - p div 2)) (min (int n) (c + p div 2))
           = (src_start c p, src_end n c p - src_start c p)"
    and "src_start c p \<le> src_end n c p"
    and "src_end n c p \<le> n"
    and "int (src_end n c p - src_start c p) \<le> 2 * (p div 2)"
    and "int (src_end n c p - src_start c p) \<le> p"
proof -
  define h where "h = p div 2"
  define s where "s = max 0 (c - h)"
  define e where "e = min (int n) (c + h)"
  have h: "0 \<le> h" "2 * h \<le> p" using assms(3) by (simp_all add: h_def)
  have se: "0 \<le> s" "s \<le> e" "e \<le> int n" "e - s \<le> 2 * h"
    using h assms by (auto simp: s_def e_def)
  have d: "nat (e - s) = nat e - nat s" using se by (simp add: nat_diff_distrib)
  have cl: "clip_index n s = s" "clip_index n e = e"
    using se by (simp_all add: clip_index_def)
  show "slice_indices n (max 0 (c - p div 2)) (min (int n) (c + p div 2))
           = (src_start c p, src_end n c p - src_start c p)"
    using cl d unfolding slice_indices_def src_start_def src_end_def Let_def
    by (simp add: s_def e_def h_def)
  have "nat s \<le> nat e" "nat e \<le> n" using se by linarith+
  then show "src_start c p \<le> src_end n c p" "src_end n c p \<le> n"
    unfolding src_start_def src_end_def s_def e_def h_def by simp_all
  have "int (nat e - nat s) \<le> 2 * h" using se d by linarith
  then show "int (src_end n c p - src_start c p) \<le> 2 * (p div 2)"
    unfolding src_start_def src_end_def s_def e_def h_def .
  then show "int (src_end n c p - src_start c p) \<le> p" using h unfolding h_def by linarith
qed

lemma prefix_slice: "a \<le> p \<Longrightarrow> snd (slice_indices p 0 (int a)) = a"
  by (simp add: slice_indices_def clip_index_def Let_def)

text \<open>What extract_patch returns on a single-channel volume.\<close>

lemma extract_patch_single:
  assumes sh: "shape v = (Z, Y, X)"
    and c: "0 \<le> z" "z < int Z" "0 \<le> y" "y < int Y" "0 \<le> x" "x < int X"
    and p: "0 < pz" "0 < py" "0 < px"
  defines "z0 \<equiv> src_start z pz" and "y0 \<equiv> src_start y py" and "x0 \<equiv> src_start x px"
  defines "lz \<equiv> src_end Z z pz - z0" and "ly \<equiv> src_end Y y py - y0"
    and "lx \<equiv> src_end X x px - x0"
  shows "\<exists>r. extract_patch (Single v) (z, y, x) (pz, py, px) = Inr (Single r)
           \<and> shape r = (nat pz, nat py, nat px) \<and> well_formed r
           \<and> (\<forall>i j k. i < nat pz \<and> j < nat py \<and> k < nat px \<longrightarrow>
                elem r (i, j, k) =
                  (if i < lz \<and> j < ly \<and> k < lx then elem v (z0 + i, y0 + j, x0 + k) else 0))"
proof -
  have az: "slice_indices Z (max 0 (z - pz div 2)) (min (int Z) (z + pz div 2)) = (z0, lz)"
    and ay: "slice_indices Y (max 0 (y - py div 2)) (min (int Y) (y + py div 2)) = (y0, ly)"
    and ax: "slice_indices X (max 0 (x - px div 2)) (min (int X) (x + px div 2)) = (x0, lx)"
    unfolding z0_def y0_def x0_def lz_def ly_def lx_def
    using axis_slice(1) c p by blast+
  have le: "lz \<le> nat pz" "ly \<le> nat py" "lx \<le> nat px"
    unfolding z0_def y0_def x0_def lz_def ly_def lx_def
    using axis_slice(5) [OF c(1,2) p(1)] axis_slice(5) [OF c(3,4) p(2)]
      axis_slice(5) [OF c(5,6) p(3)] by linarith+
  define patch where "patch = tabulate (lz, ly, lx) (\<lambda>(i, j, k). elem v (z0 + i, y0 + j, x0 + k))"
  have gs: "getslice v (max 0 (z - pz div 2), min (int Z) (z + pz div 2))
              (max 0 (y - py div 2), min (int Y) (y + py div 2))
              (max 0 (x - px div 2), min (int X) (x + px div 2)) = patch"
    by (simp add: getslice_def sh az ay ax patch_def)
  show ?thesis
  proof (cases "int_shape (lz, ly, lx) = (pz, py, px)")
    case True
    then have eq: "nat pz = lz" "nat py = ly" "nat px = lx" by auto
    have "int_shape (shape patch) = (pz, py, px)" using True by (simp add: patch_def)
    then have "extract_patch (Single v) (z, y, x) (pz, py, px) = Inr (Single patch)"
      by (simp add: sh gs Let_def)
    moreover have "shape patch = (nat pz, nat py, nat px)" by (simp add: patch_def eq)
    moreover have "well_formed patch" by (simp add: patch_def)
    moreover have "elem patch (i, j, k) =
        (if i < lz \<and> j < ly \<and> k < lx then elem v (z0 + i, y0 + j, x0 + k) else 0)"
      if "i < nat pz \<and> j < nat py \<and> k < nat px" for i j k
      using that unfolding patch_def by (subst elem_tabulate) (simp_all add: eq)
    ultimately show ?thesis by blast
  next
    case False
    define padded :: "'a ndarray" where "padded = tabulate (nat pz, nat py, nat px) (\<lambda>_. 0)"
    define r where "r = tabulate (nat pz, nat py, nat px)
        (\<lambda>(i, j, k). if i < lz \<and> j < ly \<and> k < lx then elem patch (i, j, k)
                       else elem padded (i, j, k))"
    have z: "zeros (pz, py, px) = Inr padded" using p by (simp add: zeros_def padded_def)
    have shp: "shape padded = (nat pz, nat py, nat px)" "shape patch = (lz, ly, lx)"
      by (simp_all add: padded_def patch_def)
    have as: "assign_prefix padded patch = Inr r"
      by (simp add: assign_prefix_def shp prefix_slice le r_def)
    have ne: "int_shape (shape patch) \<noteq> (pz, py, px)" using False by (simp add: shp)
    have "extract_patch (Single v) (z, y, x) (pz, py, px) = Inr (Single r)"
      by (simp add: sh gs Let_def z as ne)
    moreover have "shape r = (nat pz, nat py, nat px)" "well_formed r" by (simp_all add: r_def)
    moreover have "elem r (i, j, k) =
        (if i < lz \<and> j < ly \<and> k < lx then elem v (z0 + i, y0 + j, x0 + k) else 0)"
      if b: "i < nat pz \<and> j < nat py \<and> k < nat px" for i j k
    proof -
      have "elem r (i, j, k) = (if i < lz \<and> j < ly \<and> k < lx then elem patch (i, j, k)
                       else elem padded (i, j, k))"
        unfolding r_def using b by (subst elem_tabulate) simp_all
      moreover have "elem padded (i, j, k) = 0"
        unfolding padded_def using b by (subst elem_tabulate) simp_all
      moreover have "elem patch (i, j, k) = elem v (z0 + i, y0 + j, x0 + k)"
        if "i < lz \<and> j < ly \<and> k < lx"
        unfolding patch_def using that by (subst elem_tabulate) simp_all
      ultimately show ?thesis by simp
    qed
    ultimately show ?thesis by blast
  qed
qed

text \<open>The same on a multi-channel volume, channel by channel.\<close>

lemma extract_patch_multi:
  assumes sh: "shape4 v = (C, Z, Y, X)"
    and c: "0 \<le> z" "z < int Z" "0 \<le> y" "y < int Y" "0 \<le> x" "x < int X"
    and p: "0 < pz" "0 < py" "0 < px"
  defines "z0 \<equiv> src_start z pz" and "y0 \<equiv> src_start y py" and "x0 \<equiv> src_start x px"
  defines "lz \<equiv> src_end Z z pz - z0" and "ly \<equiv> src_end Y y py - y0"
    and "lx \<equiv> src_end X x px - x0"
  shows "\<exists>r. extract_patch (Multi v) (z, y, x) (pz, py, px) = Inr (Multi r)
           \<and> shape4 r = (C, nat pz, nat py, nat px) \<and> well_formed4 r
           \<and> (\<forall>ch i j k. ch < C \<and> i < nat pz \<and> j < nat py \<and> k < nat px \<longrightarrow>
                elem4 r (ch, i, j, k) =
                  (if i < lz \<and> j < ly \<and> k < lx then elem4 v (ch, z0 + i, y0 + j, x0 + k)
                   else 0))"
proof -
  have az: "slice_indices Z (max 0 (z - pz div 2)) (min (int Z) (z + pz div 2)) = (z0, lz)"
    and ay: "slice_indices Y (max 0 (y - py div 2)) (min (int Y) (y + py div 2)) = (y0, ly)"
    and ax: "slice_indices X (max 0 (x - px div 2)) (min (int X) (x + px div 2)) = (x0, lx)"
    unfolding z0_def y0_def x0_def lz_def ly_def lx_def
    using axis_slice(1) c p by blast+
  have le: "lz \<le> nat pz" "ly \<le> nat py" "lx \<le> nat px"
    unfolding z0_def y0_def x0_def lz_def ly_def lx_def
    using axis_slice(5) [OF c(1,2) p(1)] axis_slice(5) [OF c(3,4) p(2)]
      axis_slice(5) [OF c(5,6) p(3)] by linarith+
  define patch where
    "patch = tabulate4 (C, lz, ly, lx) (\<lambda>(ch, i, j, k). elem4 v (ch, z0 + i, y0 + j, x0 + k))"
  have gs: "getslice4 v (max 0 (z - pz div 2), min (int Z) (z + pz div 2))
              (max 0 (y - py div 2), min (int Y) (y + py div 2))
              (max 0 (x - px div 2), min (int X) (x + px div 2)) = patch"
    by (simp add: getslice4_def sh az ay ax patch_def)
  have shpatch: "shape4 patch = (C, lz, ly, lx)" by (simp add: patch_def)
  have rd: "elem4 patch (ch, i, j, k) = elem4 v (ch, z0 + i, y0 + j, x0 + k)"
    if "ch < C" "i < lz \<and> j < ly \<and> k < lx" for ch i j k
    unfolding patch_def using that by (subst elem4_tabulate4) simp_all
  show ?thesis
  proof (cases "int_shape (lz, ly, lx) = (pz, py, px)")
    case True
    then have eq: "nat pz = lz" "nat py = ly" "nat px = lx" by auto
    have "int_shape (snd (shape4 patch)) = (pz, py, px)" using True by (simp add: shpatch)
    then have "extract_patch (Multi v) (z, y, x) (pz, py, px) = Inr (Multi patch)"
      by (simp add: sh gs Let_def)
    moreover have "shape4 patch = (C, nat pz, nat py, nat px)" by (simp add: shpatch eq)
    moreover have "well_formed4 patch" by (simp add: patch_def)
    moreover have "elem4 patch (ch, i, j, k) =
        (if i < lz \<and> j < ly \<and> k < lx then elem4 v (ch, z0 + i, y0 + j, x0 + k) else 0)"
      if "ch < C \<and> i < nat pz \<and> j < nat py \<and> k < nat px" for ch i j k
      using that rd [of ch i j k] by (simp add: eq)
    ultimately show ?thesis by blast
  next
    case False
    define padded :: "'a ndarray4" where
      "padded = tabulate4 (C, nat pz, nat py, nat px) (\<lambda>_. 0)"
    define r where "r = tabulate4 (C, nat pz, nat py, nat px)
        (\<lambda>(ch, i, j, k). if i < lz \<and> j < ly \<and> k < lx
                          then elem4 patch (if C = C then ch else 0, i, j, k)
                          else elem4 padded (ch, i, j, k))"
    have z: "zeros4 C (pz, py, px) = Inr padded" using p by (simp add: zeros4_def padded_def)
    have shp: "shape4 padded = (C, nat pz, nat py, nat px)" by (simp add: padded_def)
    have as: "assign_prefix4 padded patch = Inr r"
      by (simp add: assign_prefix4_def shp shpatch prefix_slice le r_def)
    have ne: "int_shape (snd (shape4 patch)) \<noteq> (pz, py, px)"
      using False by (simp add: shpatch)
    have "extract_patch (Multi v) (z, y, x) (pz, py, px) = Inr (Multi r)"
      by (simp add: sh gs Let_def z as ne)
    moreover have "shape4 r = (C, nat pz, nat py, nat px)" "well_formed4 r"
      by (simp_all add: r_def)
    moreover have "elem4 r (ch, i, j, k) =
        (if i < lz \<and> j < ly \<and> k < lx then elem4 v (ch, z0 + i, y0 + j, x0 + k) else 0)"
      if b: "ch < C \<and> i < nat pz \<and> j < nat py \<and> k < nat px" for ch i j k
    proof -
      have "elem4 r (ch, i, j, k) = (if i < lz \<and> j < ly \<and> k < lx then elem4 patch (ch, i, j, k)
                       else elem4 padded (ch, i, j, k))"
        unfolding r_def using b by (subst elem4_tabulate4) simp_all
      moreover have "elem4 padded (ch, i, j, k) = 0"
        unfolding padded_def using b by (subst elem4_tabulate4) simp_all
      ultimately show ?thesis using rd [of ch i j k] b by simp
    qed
    ultimately show ?thesis by blast
  qed
qed

text \<open>Both cases at once, in the terms of a volume.\<close>

lemma extract_patch_contents:
  assumes sh: "spatial_shape vol = (Z, Y, X)"
    and c: "0 \<le> z" "z < int Z" "0 \<le> y" "y < int Y" "0 \<le> x" "x < int X"
    and p: "0 < pz" "0 < py" "0 < px"
  shows "\<exists>r. extract_patch vol (z, y, x) (pz, py, px) = Inr r
           \<and> spatial_shape r = (nat pz, nat py, nat px) \<and> channels r = channels vol
           \<and> well_formed_volume r
           \<and> (\<forall>ch i j k. channel_ok vol ch \<and> i < nat pz \<and> j < nat py \<and> k < nat px \<longrightarrow>
                voxel r ch (i, j, k) =
                  (if i < src_end Z z pz - src_start z pz \<and> j < src_end Y y py - src_start y py
                      \<and> k < src_end X x px - src_start x px
                   then voxel vol ch (src_start z pz + i, src_start y py + j, src_start x px + k)
                   else 0))"
proof (cases vol)
  case (Single v)
  then have "shape v = (Z, Y, X)" using sh by simp
  from extract_patch_single [OF this c p] obtain r where
    "extract_patch (Single v) (z, y, x) (pz, py, px) = Inr (Single r)"
    "shape r = (nat pz, nat py, nat px)" "well_formed r"
    "\<forall>i j k. i < nat pz \<and> j < nat py \<and> k < nat px \<longrightarrow>
        elem r (i, j, k) =
          (if i < src_end Z z pz - src_start z pz \<and> j < src_end Y y py - src_start y py
              \<and> k < src_end X x px - src_start x px
           then elem v (src_start z pz + i, src_start y py + j, src_start x px + k) else 0)"
    by blast
  then show ?thesis unfolding Single
    by (intro exI [of _ "Single r"]) simp
next
  case (Multi v)
  obtain C where shv: "shape4 v = (C, Z, Y, X)" using sh Multi by (cases "shape4 v") auto
  from extract_patch_multi [OF shv c p] obtain r where
    "extract_patch (Multi v) (z, y, x) (pz, py, px) = Inr (Multi r)"
    "shape4 r = (C, nat pz, nat py, nat px)" "well_formed4 r"
    "\<forall>ch i j k. ch < C \<and> i < nat pz \<and> j < nat py \<and> k < nat px \<longrightarrow>
        elem4 r (ch, i, j, k) =
          (if i < src_end Z z pz - src_start z pz \<and> j < src_end Y y py - src_start y py
              \<and> k < src_end X x px - src_start x px
           then elem4 v (ch, src_start z pz + i, src_start y py + j, src_start x px + k) else 0)"
    by blast
  then show ?thesis unfolding Multi
    by (intro exI [of _ "Multi r"]) (simp add: shv)
qed

section \<open>Patch Extractor: shape and contents\<close>

text \<open>
  C4. For a single-channel or a multi-channel volume, a center inside the volume (also
  on its boundary) and a patch size whose three extents are positive,
  \<^const>\<open>extract_patch\<close> raises nothing and returns an array whose spatial shape is exactly
  the patch size, with the channels of the input in the multi-channel case; the array
  holds as many elements as its shape says.
\<close>

theorem extract_patch_exact_shape:
  assumes "spatial_shape vol = (Z, Y, X)"
    and "0 \<le> z" "z < int Z" "0 \<le> y" "y < int Y" "0 \<le> x" "x < int X"
    and "0 < pz" "0 < py" "0 < px"
  shows "\<exists>r. extract_patch vol (z, y, x) (pz, py, px) = Inr r
           \<and> int_shape (spatial_shape r) = (pz, py, px) \<and> channels r = channels vol
           \<and> well_formed_volume r"
proof -
  from extract_patch_contents [OF assms] obtain r where
    "extract_patch vol (z, y, x) (pz, py, px) = Inr r"
    "spatial_shape r = (nat pz, nat py, nat px)" "channels r = channels vol"
    "well_formed_volume r"
    by blast
  moreover have "int_shape (nat pz, nat py, nat px) = (pz, py, px)"
    using assms(8-10) by simp
  ultimately show ?thesis by simp
qed

theorem extract_patch_exact_shape_witness:
  "spatial_shape (Multi (tabulate4 (2, 4, 4, 4) (\<lambda>(c, z, y, x). int (c + z + y + x))))
      = (4, 4, 4)
   \<and> (\<exists>r. extract_patch (Multi (tabulate4 (2, 4, 4, 4) (\<lambda>(c, z, y, x). int (c + z + y + x))))
            (0, 3, 2) (3, 2, 4) = Inr r
          \<and> int_shape (spatial_shape r) = (3, 2, 4) \<and> channels r = Some 2
          \<and> well_formed_volume r)"
  using extract_patch_exact_shape
    [of "Multi (tabulate4 (2, 4, 4, 4) (\<lambda>(c, z, y, x). int (c + z + y + x)))" 4 4 4 0 3 2 3 2 4]
  by simp

text \<open>
  C5. For a center inside the volume and positive patch extents, the returned patch
  holds, at every position below the extent of the source slice on all three axes, the
  element of the volume at that offset from the start of the slice, and zero at every
  other position: the slice sits at the low-index corner and the padding is at the
  high-index end of each axis. On each axis the slice runs from
  \<^const>\<open>src_start\<close> to \<^const>\<open>src_end\<close>. (This holds whether or not the slice is
  smaller than the patch; when it is not, no position is left to pad.)
\<close>

theorem extract_patch_low_corner_zero_padded:
  assumes "spatial_shape vol = (Z, Y, X)"
    and "0 \<le> z" "z < int Z" "0 \<le> y" "y < int Y" "0 \<le> x" "x < int X"
    and "0 < pz" "0 < py" "0 < px"
  shows "\<exists>r. extract_patch vol (z, y, x) (pz, py, px) = Inr r
           \<and> (\<forall>ch i j k. channel_ok vol ch \<and> i < nat pz \<and> j < nat py \<and> k < nat px \<longrightarrow>
                voxel r ch (i, j, k) =
                  (if i < src_end Z z pz - src_start z pz \<and> j < src_end Y y py - src_start y py
                      \<and> k < src_end X x px - src_start x px
                   then voxel vol ch (src_start z pz + i, src_start y py + j, src_start x px + k)
                   else 0))"
  using extract_patch_contents [OF assms] by blast

theorem extract_patch_low_corner_zero_padded_witness:
  "spatial_shape (Single (tabulate (3, 3, 3) (\<lambda>(z, y, x). int (9 * z + 3 * y + x + 1))))
      = (3, 3, 3)
   \<and> (\<exists>r. extract_patch (Single (tabulate (3, 3, 3) (\<lambda>(z, y, x). int (9 * z + 3 * y + x + 1))))
            (0, 1, 2) (2, 2, 2) = Inr r
          \<and> voxel r 0 (0, 1, 0) = 5 \<and> voxel r 0 (0, 1, 1) = 6 \<and> voxel r 0 (1, 1, 0) = 0)"
proof -
  let ?v = "tabulate (3, 3, 3) (\<lambda>(z, y, x). int (9 * z + 3 * y + x + 1))"
  have s: "src_start 0 2 = 0" "src_end 3 0 2 = 1" "src_start 1 2 = 0" "src_end 3 1 2 = 2"
    "src_start 2 2 = 1" "src_end 3 2 2 = 3"
    by (simp_all add: src_start_def src_end_def)
  from extract_patch_low_corner_zero_padded [of "Single ?v" 3 3 3 0 1 2 2 2 2]
  obtain r where r: "extract_patch (Single ?v) (0, 1, 2) (2, 2, 2) = Inr r"
    and v: "\<And>ch i j k. channel_ok (Single ?v) ch \<and> i < nat 2 \<and> j < nat 2 \<and> k < nat 2 \<Longrightarrow>
       voxel r ch (i, j, k) =
         (if i < src_end 3 0 2 - src_start 0 2 \<and> j < src_end 3 1 2 - src_start 1 2
             \<and> k < src_end 3 2 2 - src_start 2 2
          then voxel (Single ?v) ch (src_start 0 2 + i, src_start 1 2 + j, src_start 2 2 + k)
          else 0)"
    by auto
  have "voxel r 0 (0, 1, 0) = 5" using v [of 0 0 1 0] by (simp add: s elem_tabulate)
  moreover have "voxel r 0 (0, 1, 1) = 6" using v [of 0 0 1 1] by (simp add: s elem_tabulate)
  moreover have "voxel r 0 (1, 1, 0) = 0" using v [of 0 1 1 0] by (simp add: s)
  ultimately show ?thesis using r by auto
qed

text \<open>
  C9. For a center inside the volume and positive patch extents: along an axis whose
  patch extent p is odd, the source slice (the Python slice from max 0 (c - p div 2) to
  min n (c + p div 2)) spans at most p - 1 = 2 * (p div 2) voxels, and the returned patch
  is zero at every position whose index along that axis is the last one, p - 1,
  wherever the center lies.
\<close>

theorem extract_patch_odd_axis_last_zero:
  assumes "spatial_shape vol = (Z, Y, X)"
    and "0 \<le> z" "z < int Z" "0 \<le> y" "y < int Y" "0 \<le> x" "x < int X"
    and "0 < pz" "0 < py" "0 < px"
  shows "\<exists>r. extract_patch vol (z, y, x) (pz, py, px) = Inr r
           \<and> (odd pz \<longrightarrow>
                int (snd (slice_indices Z (max 0 (z - pz div 2)) (min (int Z) (z + pz div 2))))
                  \<le> pz - 1
                \<and> (\<forall>ch j k. channel_ok vol ch \<and> j < nat py \<and> k < nat px \<longrightarrow>
                      voxel r ch (nat pz - 1, j, k) = 0))
           \<and> (odd py \<longrightarrow>
                int (snd (slice_indices Y (max 0 (y - py div 2)) (min (int Y) (y + py div 2))))
                  \<le> py - 1
                \<and> (\<forall>ch i k. channel_ok vol ch \<and> i < nat pz \<and> k < nat px \<longrightarrow>
                      voxel r ch (i, nat py - 1, k) = 0))
           \<and> (odd px \<longrightarrow>
                int (snd (slice_indices X (max 0 (x - px div 2)) (min (int X) (x + px div 2))))
                  \<le> px - 1
                \<and> (\<forall>ch i j. channel_ok vol ch \<and> i < nat pz \<and> j < nat py \<longrightarrow>
                      voxel r ch (i, j, nat px - 1) = 0))"
proof -
  from extract_patch_contents [OF assms] obtain r where
    r: "extract_patch vol (z, y, x) (pz, py, px) = Inr r"
    and v: "\<And>ch i j k. channel_ok vol ch \<and> i < nat pz \<and> j < nat py \<and> k < nat px \<Longrightarrow>
       voxel r ch (i, j, k) =
         (if i < src_end Z z pz - src_start z pz \<and> j < src_end Y y py - src_start y py
             \<and> k < src_end X x px - src_start x px
          then voxel vol ch (src_start z pz + i, src_start y py + j, src_start x px + k)
          else 0)"
    by blast
  have odd_len:
    "int (snd (slice_indices n (max 0 (c - p div 2)) (min (int n) (c + p div 2)))) \<le> p - 1
       \<and> \<not> nat p - 1 < src_end n c p - src_start c p"
    if "0 \<le> c" "c < int n" "0 < p" "odd p" for n c p
  proof -
    have "2 * (p div 2) = p - 1" using \<open>odd p\<close> by presburger
    then have "int (src_end n c p - src_start c p) \<le> p - 1"
      using axis_slice(4) [OF that(1-3)] by simp
    then show ?thesis using that(3) axis_slice(1) [OF that(1-3)] by simp
  qed
  have "odd pz \<longrightarrow>
        int (snd (slice_indices Z (max 0 (z - pz div 2)) (min (int Z) (z + pz div 2))))
          \<le> pz - 1
        \<and> (\<forall>ch j k. channel_ok vol ch \<and> j < nat py \<and> k < nat px \<longrightarrow>
              voxel r ch (nat pz - 1, j, k) = 0)"
    using odd_len [OF assms(2,3,8)] v [of _ "nat pz - 1"] assms(8) by simp
  moreover have "odd py \<longrightarrow>
        int (snd (slice_indices Y (max 0 (y - py div 2)) (min (int Y) (y + py div 2))))
          \<le> py - 1
        \<and> (\<forall>ch i k. channel_ok vol ch \<and> i < nat pz \<and> k < nat px \<longrightarrow>
              voxel r ch (i, nat py - 1, k) = 0)"
    using odd_len [OF assms(4,5,9)] v [of _ _ "nat py - 1"] assms(9) by simp
  moreover have "odd px \<longrightarrow>
        int (snd (slice_indices X (max 0 (x - px div 2)) (min (int X) (x + px div 2))))
          \<le> px - 1
        \<and> (\<forall>ch i j. channel_ok vol ch \<and> i < nat pz \<and> j < nat py \<longrightarrow>
              voxel r ch (i, j, nat px - 1) = 0)"
    using odd_len [OF assms(6,7,10)] v [of _ _ _ "nat px - 1"] assms(10) by simp
  ultimately show ?thesis using r by blast
qed

theorem extract_patch_odd_axis_last_zero_witness:
  "spatial_shape (Single (tabulate (9, 9, 9) (\<lambda>_. 1 :: int))) = (9, 9, 9)
   \<and> (\<exists>r. extract_patch (Single (tabulate (9, 9, 9) (\<lambda>_. 1 :: int))) (4, 4, 4) (3, 2, 5) = Inr r
          \<and> voxel r 0 (2, 0, 0) = 0 \<and> voxel r 0 (2, 1, 4) = 0 \<and> voxel r 0 (1, 1, 4) = 0)"
proof -
  let ?v = "Single (tabulate (9, 9, 9) (\<lambda>_. 1 :: int))"
  from extract_patch_odd_axis_last_zero [of ?v 9 9 9 4 4 4 3 2 5]
  obtain r where r: "extract_patch ?v (4, 4, 4) (3, 2, 5) = Inr r"
    and a: "\<And>ch j k. channel_ok ?v ch \<and> j < nat 2 \<and> k < nat 5 \<Longrightarrow>
              voxel r ch (nat 3 - 1, j, k) = 0"
    and b: "\<And>ch i j. channel_ok ?v ch \<and> i < nat 3 \<and> j < nat 2 \<Longrightarrow>
              voxel r ch (i, j, nat 5 - 1) = 0"
    by auto
  have "voxel r 0 (2, 0, 0) = 0" "voxel r 0 (2, 1, 4) = 0" using a [of 0 0 0] a [of 0 1 4] by simp_all
  moreover have "voxel r 0 (1, 1, 4) = 0" using b [of 0 1 1] by simp
  ultimately show ?thesis using r by auto
qed

section \<open>Facts about the hotspot selector\<close>

lemma argmax_from_spec:
  assumes "b < length ys" "v = ys ! b" "\<forall>j<length ys. ys ! j \<le> v" "\<forall>j<b. ys ! j < v"
  shows "argmax_from xs (length ys) b v < length (ys @ xs)
       \<and> (\<forall>j<length (ys @ xs). (ys @ xs) ! j \<le> (ys @ xs) ! argmax_from xs (length ys) b v)
       \<and> (\<forall>j<argmax_from xs (length ys) b v.
             (ys @ xs) ! j < (ys @ xs) ! argmax_from xs (length ys) b v)"
  using assms
proof (induction xs arbitrary: ys b v)
  case Nil
  then show ?case by simp
next
  case (Cons x xs)
  show ?case
  proof (cases "v < x")
    case True
    have a: "length ys < length (ys @ [x])" "x = (ys @ [x]) ! length ys" by simp_all
    have b: "\<forall>j<length (ys @ [x]). (ys @ [x]) ! j \<le> x"
      using Cons.prems(3) True by (auto simp: nth_append less_Suc_eq)
    have c: "\<forall>j<length ys. (ys @ [x]) ! j < x"
      using Cons.prems(3) True by (auto simp: nth_append)
    from Cons.IH [OF a b c] True show ?thesis by simp
  next
    case False
    have a: "b < length (ys @ [x])" "v = (ys @ [x]) ! b"
      using Cons.prems(1,2) by (simp_all add: nth_append)
    have b: "\<forall>j<length (ys @ [x]). (ys @ [x]) ! j \<le> v"
      using Cons.prems(3) False by (auto simp: nth_append less_Suc_eq)
    have c: "\<forall>j<b. (ys @ [x]) ! j < v"
      using Cons.prems(1,4) by (auto simp: nth_append)
    from Cons.IH [OF a b c] False show ?thesis by simp
  qed
qed

lemma argmax_spec:
  assumes "xs \<noteq> []"
  shows "\<exists>i. argmax xs = Inr i \<and> i < length xs \<and> (\<forall>j<length xs. xs ! j \<le> xs ! i)
           \<and> (\<forall>j<i. xs ! j < xs ! i)"
proof -
  obtain x r where xs: "xs = x # r" using assms by (cases xs) auto
  have "argmax_from r (length [x]) 0 x < length ([x] @ r)
       \<and> (\<forall>j<length ([x] @ r). ([x] @ r) ! j \<le> ([x] @ r) ! argmax_from r (length [x]) 0 x)
       \<and> (\<forall>j<argmax_from r (length [x]) 0 x.
             ([x] @ r) ! j < ([x] @ r) ! argmax_from r (length [x]) 0 x)"
    by (rule argmax_from_spec) simp_all
  then show ?thesis by (simp add: xs)
qed

lemma axis_region:
  assumes "c < n" "0 \<le> p" "i < n"
    and "slice_indices n (max 0 (int c - p div 2)) (min (int n) (int c + p div 2)) = (s, l)"
  shows "(s \<le> i \<and> i < s + l) \<longleftrightarrow> (int c - p div 2 \<le> int i \<and> int i < int c + p div 2)"
proof -
  define h where "h = p div 2"
  have h: "0 \<le> h" using assms(2) by (simp add: h_def)
  define a where "a = max 0 (int c - h)"
  define e where "e = min (int n) (int c + h)"
  have ae: "0 \<le> a" "a \<le> e" "e \<le> int n" using h assms(1) by (auto simp: a_def e_def)
  have "clip_index n a = a" "clip_index n e = e" using ae by (simp_all add: clip_index_def)
  then have "s = nat a" "l = nat (e - a)"
    using assms(4) unfolding slice_indices_def Let_def h_def [symmetric] a_def [symmetric]
      e_def [symmetric] by simp_all
  then have "(s \<le> i \<and> i < s + l) \<longleftrightarrow> (a \<le> int i \<and> int i < e)" using ae by linarith
  also have "\<dots> \<longleftrightarrow> (int c - h \<le> int i \<and> int i < int c + h)"
    using assms(3) by (auto simp: a_def e_def)
  finally show ?thesis by (simp add: h_def)
qed

lemma shape_setslice [simp]: "shape (setslice a zr yr xr v) = shape a"
  by (cases "shape a") (simp add: setslice_def split: prod.splits)

lemma well_formed_setslice [simp]: "well_formed (setslice a zr yr xr v)"
  by (cases "shape a") (simp add: setslice_def split: prod.splits)

lemma shape_suppress [simp]: "shape (suppress d vs c ps) = shape d"
  by (simp add: suppress_def split: prod.splits)

lemma well_formed_suppress [simp]: "well_formed (suppress d vs c ps)"
  by (simp add: suppress_def split: prod.splits)

lemma elem_suppress:
  assumes "shape d = vs" "in_bounds vs c" "in_bounds vs q"
    and "0 \<le> fst ps" "0 \<le> fst (snd ps)" "0 \<le> snd (snd ps)"
  shows "elem (suppress d vs c ps) q = (if in_box vs ps c q then 0 else elem d q)"
proof -
  obtain Z Y X where vs: "vs = (Z, Y, X)" by (cases vs) auto
  obtain cz cy cx where c: "c = (cz, cy, cx)" by (cases c) auto
  obtain z y x where q: "q = (z, y, x)" by (cases q) auto
  obtain pz py px where ps: "ps = (pz, py, px)" by (cases ps) auto
  obtain z0 lz where sz: "slice_indices Z (max 0 (int cz - pz div 2)) (min (int Z) (int cz + pz div 2)) = (z0, lz)"
    by (meson surj_pair)
  obtain y0 ly where sy: "slice_indices Y (max 0 (int cy - py div 2)) (min (int Y) (int cy + py div 2)) = (y0, ly)"
    by (meson surj_pair)
  obtain x0 lx where sx: "slice_indices X (max 0 (int cx - px div 2)) (min (int X) (int cx + px div 2)) = (x0, lx)"
    by (meson surj_pair)
  have b: "cz < Z" "cy < Y" "cx < X" "z < Z" "y < Y" "x < X" "0 \<le> pz" "0 \<le> py" "0 \<le> px"
    using assms by (simp_all add: vs c q ps)
  have rz: "(z0 \<le> z \<and> z < z0 + lz) \<longleftrightarrow> (int cz - pz div 2 \<le> int z \<and> int z < int cz + pz div 2)"
    by (rule axis_region [OF b(1) b(7) b(4) sz])
  have ry: "(y0 \<le> y \<and> y < y0 + ly) \<longleftrightarrow> (int cy - py div 2 \<le> int y \<and> int y < int cy + py div 2)"
    by (rule axis_region [OF b(2) b(8) b(5) sy])
  have rx: "(x0 \<le> x \<and> x < x0 + lx) \<longleftrightarrow> (int cx - px div 2 \<le> int x \<and> int x < int cx + px div 2)"
    by (rule axis_region [OF b(3) b(9) b(6) sx])
  have "suppress d vs c ps = tabulate (Z, Y, X)
               (\<lambda>(i, j, k). if z0 \<le> i \<and> i < z0 + lz \<and> y0 \<le> j \<and> j < y0 + ly \<and>
                                x0 \<le> k \<and> k < x0 + lx
                             then 0 else elem d (i, j, k))"
    using assms(1) by (simp add: suppress_def setslice_def vs c ps sz sy sx)
  then have "elem (suppress d vs c ps) q =
     (if z0 \<le> z \<and> z < z0 + lz \<and> y0 \<le> y \<and> y < y0 + ly \<and> x0 \<le> x \<and> x < x0 + lx
      then 0 else elem d (z, y, x))"
    using b by (simp add: q elem_tabulate)
  also have "\<dots> = (if in_box vs ps c q then 0 else elem d q)"
    using rz ry rx b by (auto simp: vs ps c q)
  finally show ?thesis .
qed

lemma nonneg_elem: "nonneg d \<Longrightarrow> well_formed d \<Longrightarrow> in_bounds (shape d) q \<Longrightarrow> 0 \<le> elem d q"
  using ravel_less [of "shape d" q] by (simp add: nonneg_def well_formed_def elem_def)

lemma nonneg_suppress:
  assumes "nonneg d" "well_formed d" "shape d = vs"
  shows "nonneg (suppress d vs c ps)"
proof -
  obtain Z Y X where vs: "vs = (Z, Y, X)" by (cases vs) auto
  have "0 \<le> elem d (unravel_index (Z, Y, X) i)" if "i < Z * Y * X" for i
    using nonneg_elem [OF assms(1,2), of "unravel_index (Z, Y, X) i"] that
      unravel_in_bounds [of i "(Z, Y, X)"] assms(3) by (simp add: vs)
  then show ?thesis
    using assms(3)
    by (auto simp: suppress_def setslice_def nonneg_def tabulate_def vs split: prod.splits)
qed

lemma hotspot_step_spec:
  assumes "well_formed d" "shape d = vs" "0 < size3 vs"
  shows "\<exists>i. argmax (data d) = Inr i \<and> i < size3 vs
           \<and> in_bounds vs (unravel_index vs i)
           \<and> hotspot_step vs ps (d, cs) =
               Inr (suppress d vs (unravel_index vs i) ps,
                    if valid_center (unravel_index vs i) vs ps
                    then cs @ [unravel_index vs i] else cs)
           \<and> (\<forall>q. in_bounds vs q \<longrightarrow> elem d q \<le> elem d (unravel_index vs i))
           \<and> (\<forall>j<i. data d ! j < data d ! i)"
proof -
  have len: "length (data d) = size3 vs" using assms(1,2) by (simp add: well_formed_def)
  then have "data d \<noteq> []" using assms(3) by auto
  from argmax_spec [OF this] obtain i where i: "argmax (data d) = Inr i" "i < length (data d)"
    "\<forall>j<length (data d). data d ! j \<le> data d ! i" "\<forall>j<i. data d ! j < data d ! i"
    by blast
  have ib: "in_bounds vs (unravel_index vs i)" using i(2) len by (simp add: unravel_in_bounds)
  have "elem d q \<le> elem d (unravel_index vs i)" if "in_bounds vs q" for q
    using i(3) ravel_less [OF that] len assms(2) by (simp add: elem_def ravel_unravel)
  moreover have "hotspot_step vs ps (d, cs) =
               Inr (suppress d vs (unravel_index vs i) ps,
                    if valid_center (unravel_index vs i) vs ps
                    then cs @ [unravel_index vs i] else cs)"
    using i(1) assms(2) by (simp add: hotspot_step_def Let_def)
  ultimately show ?thesis using i ib len by auto
qed

text \<open>
  On a map without negative values, a candidate that is accepted lies outside every
  region on which the map is zero.
\<close>

lemma origin_first_zero:
  assumes "nonneg d" "well_formed d" "shape d = vs" "i < size3 vs"
    and "\<forall>j<i. data d ! j < data d ! i" "data d ! i = 0"
  shows "i = 0"
proof (rule ccontr)
  assume "i \<noteq> 0"
  then have "data d ! 0 < 0" using assms(5,6) by auto
  moreover have "0 \<le> data d ! 0"
    using assms(1-4) \<open>i \<noteq> 0\<close> by (simp add: nonneg_def well_formed_def)
  ultimately show False by simp
qed

lemma valid_origin_empty_box:
  assumes "valid_center (unravel_index vs 0) vs ps"
  shows "\<not> in_box vs ps c q"
proof -
  obtain Z Y X where vs: "vs = (Z, Y, X)" by (cases vs) auto
  obtain cz cy cx where c: "c = (cz, cy, cx)" by (cases c) auto
  obtain z y x where q: "q = (z, y, x)" by (cases q) auto
  obtain pz py px where ps: "ps = (pz, py, px)" by (cases ps) auto
  show ?thesis using assms by (auto simp: vs c q ps)
qed

lemma accepted_outside_zero_box:
  assumes "nonneg d" "well_formed d" "shape d = vs" "0 < size3 vs"
    and "0 \<le> fst ps" "0 \<le> fst (snd ps)" "0 \<le> snd (snd ps)"
    and zero: "\<forall>q. in_box vs ps c0 q \<longrightarrow> elem d q = 0"
    and step: "hotspot_step vs ps (d, cs) = Inr (d', cs')"
  shows "well_formed d' \<and> shape d' = vs \<and> nonneg d'
       \<and> (\<forall>q. in_box vs ps c0 q \<longrightarrow> elem d' q = 0)
       \<and> (\<exists>a. cs' = cs @ a \<and> length a \<le> 1 \<and> (\<forall>c' \<in> set a. \<not> in_box vs ps c0 c' \<and> in_bounds vs c'
              \<and> (\<forall>q. in_box vs ps c' q \<longrightarrow> elem d' q = 0)))"
proof -
  from hotspot_step_spec [OF assms(2-4), of ps cs] obtain i where
    i: "argmax (data d) = Inr i" "i < size3 vs" "in_bounds vs (unravel_index vs i)"
    and st: "hotspot_step vs ps (d, cs) =
               Inr (suppress d vs (unravel_index vs i) ps,
                    if valid_center (unravel_index vs i) vs ps
                    then cs @ [unravel_index vs i] else cs)"
    and mx: "\<forall>q. in_bounds vs q \<longrightarrow> elem d q \<le> elem d (unravel_index vs i)"
    and fst: "\<forall>j<i. data d ! j < data d ! i"
    by blast
  define c where "c = unravel_index vs i"
  have d': "d' = suppress d vs c ps"
    and cs': "cs' = (if valid_center c vs ps then cs @ [c] else cs)"
    using st step by (simp_all add: c_def)
  have inb: "in_bounds vs q" if "in_box vs ps c1 q" for c1 q
    using that by (cases vs; cases ps; cases c1; cases q) simp
  have el: "elem d' q = (if in_box vs ps c q then 0 else elem d q)" if "in_bounds vs q" for q
    unfolding d' using elem_suppress [OF assms(3) i(3) [folded c_def] that assms(5-7)] .
  have z0: "\<forall>q. in_box vs ps c0 q \<longrightarrow> elem d' q = 0"
    using el inb zero by auto
  have zc: "\<forall>q. in_box vs ps c q \<longrightarrow> elem d' q = 0"
    using el inb by auto
  have out: "\<not> in_box vs ps c0 c" if v: "valid_center c vs ps"
  proof
    assume box: "in_box vs ps c0 c"
    then have "elem d c = 0" using zero by blast
    then have "data d ! i = 0" using assms(3) by (simp add: elem_def c_def ravel_unravel)
    then have "i = 0" using origin_first_zero [OF assms(1-3) i(2) fst] by blast
    then show False using valid_origin_empty_box [of vs ps c0 c] v box by (simp add: c_def)
  qed
  have "well_formed d'" "shape d' = vs" "nonneg d'"
    using assms(1-3) by (simp_all add: d' nonneg_suppress)
  moreover have "\<exists>a. cs' = cs @ a \<and> length a \<le> 1 \<and> (\<forall>c' \<in> set a. \<not> in_box vs ps c0 c' \<and> in_bounds vs c'
              \<and> (\<forall>q. in_box vs ps c' q \<longrightarrow> elem d' q = 0))"
  proof (cases "valid_center c vs ps")
    case True
    then show ?thesis using out zc i(3) cs' by (intro exI [of _ "[c]"]) (simp add: c_def)
  next
    case False
    then show ?thesis using cs' by (intro exI [of _ "[]"]) simp
  qed
  ultimately show ?thesis using z0 by blast
qed

text \<open>The loop never raises on a non-empty map, and a zero stays a zero.\<close>

lemma hotspot_loop_total:
  assumes "well_formed d" "shape d = vs" "0 < size3 vs"
    and "0 \<le> fst ps" "0 \<le> fst (snd ps)" "0 \<le> snd (snd ps)"
  shows "\<exists>d' new. hotspot_loop n vs ps (d, cs) = Inr (d', cs @ new) \<and> length new \<le> n
           \<and> well_formed d' \<and> shape d' = vs
           \<and> (\<forall>q. in_bounds vs q \<and> elem d q = 0 \<longrightarrow> elem d' q = 0)"
  using assms(1,2)
proof (induction n arbitrary: d cs)
  case 0
  then show ?case by simp
next
  case (Suc n)
  from hotspot_step_spec [OF Suc.prems assms(3), of ps cs] obtain i where
    i: "in_bounds vs (unravel_index vs i)"
    and st: "hotspot_step vs ps (d, cs) =
               Inr (suppress d vs (unravel_index vs i) ps,
                    if valid_center (unravel_index vs i) vs ps
                    then cs @ [unravel_index vs i] else cs)"
    by blast
  define c where "c = unravel_index vs i"
  define d1 where "d1 = suppress d vs c ps"
  define a where "a = (if valid_center c vs ps then [c] else [])"
  have st': "hotspot_step vs ps (d, cs) = Inr (d1, cs @ a)"
    using st by (simp add: c_def d1_def a_def)
  have w1: "well_formed d1" "shape d1 = vs" using Suc.prems by (simp_all add: d1_def)
  have z1: "elem d1 q = 0" if "in_bounds vs q" "elem d q = 0" for q
    using elem_suppress [OF Suc.prems(2) i [folded c_def] that(1) assms(4-6)] that(2)
    by (simp add: d1_def)
  from Suc.IH [OF w1, of "cs @ a"] obtain d' new where
    l: "hotspot_loop n vs ps (d1, cs @ a) = Inr (d', (cs @ a) @ new)" "length new \<le> n"
      "well_formed d'" "shape d' = vs"
      "\<forall>q. in_bounds vs q \<and> elem d1 q = 0 \<longrightarrow> elem d' q = 0"
    by blast
  have "hotspot_loop (Suc n) vs ps (d, cs) = Inr (d', cs @ (a @ new))"
    using st' l(1) by simp
  moreover have "length (a @ new) \<le> Suc n" using l(2) by (simp add: a_def)
  ultimately show ?case using l(3,4,5) z1 by blast
qed

text \<open>
  On a map without negative values, no center accepted later lies in a region that is
  zero now.
\<close>

lemma hotspot_loop_outside_zero_box:
  assumes "0 < size3 vs" "0 \<le> fst ps" "0 \<le> fst (snd ps)" "0 \<le> snd (snd ps)"
    and "nonneg d" "well_formed d" "shape d = vs"
    and "\<forall>q. in_box vs ps c0 q \<longrightarrow> elem d q = 0"
    and "hotspot_loop n vs ps (d, cs) = Inr (d', cs')"
  shows "\<exists>new. cs' = cs @ new \<and> (\<forall>c' \<in> set new. \<not> in_box vs ps c0 c')"
  using assms(5-9)
proof (induction n arbitrary: d cs)
  case 0
  then show ?case by simp
next
  case (Suc n)
  from Suc.prems(5) obtain d1 cs1 where
    st: "hotspot_step vs ps (d, cs) = Inr (d1, cs1)"
    and lp: "hotspot_loop n vs ps (d1, cs1) = Inr (d', cs')"
    by (auto split: sum.splits)
  from accepted_outside_zero_box [OF Suc.prems(1-3) assms(1-4) Suc.prems(4) st]
  obtain a where w1: "well_formed d1" "shape d1 = vs" "nonneg d1"
    and z1: "\<forall>q. in_box vs ps c0 q \<longrightarrow> elem d1 q = 0"
    and a: "cs1 = cs @ a" "\<forall>c' \<in> set a. \<not> in_box vs ps c0 c'"
    by blast
  from Suc.IH [OF w1(3) w1(1,2) z1 lp] obtain new where
    "cs' = cs1 @ new" "\<forall>c' \<in> set new. \<not> in_box vs ps c0 c'"
    by blast
  then show ?case using a by (intro exI [of _ "a @ new"]) auto
qed

text \<open>The centers that one run of the loop accepts, taken in order.\<close>

lemma hotspot_loop_separated:
  assumes "0 < size3 vs" "0 \<le> fst ps" "0 \<le> fst (snd ps)" "0 \<le> snd (snd ps)"
    and "nonneg d" "well_formed d" "shape d = vs"
    and "hotspot_loop n vs ps (d, cs) = Inr (d', cs')"
  shows "\<exists>new. cs' = cs @ new \<and> length new \<le> n \<and> (\<forall>c \<in> set new. in_bounds vs c)
           \<and> (\<forall>i j. i < j \<and> j < length new \<longrightarrow> \<not> in_box vs ps (new ! i) (new ! j))"
  using assms(5-8)
proof (induction n arbitrary: d cs)
  case 0
  then show ?case by simp
next
  case (Suc n)
  from Suc.prems(4) obtain d1 cs1 where
    st: "hotspot_step vs ps (d, cs) = Inr (d1, cs1)"
    and lp: "hotspot_loop n vs ps (d1, cs1) = Inr (d', cs')"
    by (auto split: sum.splits)
  have step: "\<exists>a. cs1 = cs @ a \<and> length a \<le> 1 \<and> well_formed d1 \<and> shape d1 = vs \<and> nonneg d1
      \<and> (\<forall>c' \<in> set a. in_bounds vs c' \<and> (\<forall>q. in_box vs ps c' q \<longrightarrow> elem d1 q = 0))"
  proof -
    from hotspot_step_spec [OF Suc.prems(2,3) assms(1), of ps cs] obtain i where
      i: "in_bounds vs (unravel_index vs i)"
      and s: "hotspot_step vs ps (d, cs) =
               Inr (suppress d vs (unravel_index vs i) ps,
                    if valid_center (unravel_index vs i) vs ps
                    then cs @ [unravel_index vs i] else cs)"
      by blast
    define c where "c = unravel_index vs i"
    have d1: "d1 = suppress d vs c ps"
      and cs1: "cs1 = cs @ (if valid_center c vs ps then [c] else [])"
      using s st by (simp_all add: c_def)
    have inb: "in_bounds vs q" if "in_box vs ps c q" for q
      using that by (cases vs; cases ps; cases c; cases q) simp
    have "elem d1 q = 0" if "in_box vs ps c q" for q
      using elem_suppress [OF Suc.prems(3) i [folded c_def] inb [OF that] assms(2-4)] that
      by (simp add: d1)
    moreover have "well_formed d1" "shape d1 = vs" "nonneg d1"
      using Suc.prems(1-3) by (simp_all add: d1 nonneg_suppress)
    ultimately show ?thesis using cs1 i by (auto simp: c_def)
  qed
  then obtain a where a: "cs1 = cs @ a" "length a \<le> 1" and w1: "well_formed d1" "shape d1 = vs" "nonneg d1"
    and za: "\<forall>c' \<in> set a. in_bounds vs c' \<and> (\<forall>q. in_box vs ps c' q \<longrightarrow> elem d1 q = 0)"
    by blast
  from Suc.IH [OF w1(3) w1(1,2) lp] obtain new where
    new: "cs' = cs1 @ new" "length new \<le> n" "\<forall>c \<in> set new. in_bounds vs c"
      "\<forall>i j. i < j \<and> j < length new \<longrightarrow> \<not> in_box vs ps (new ! i) (new ! j)"
    by blast
  have later: "\<forall>c' \<in> set new. \<not> in_box vs ps c c'" if "c \<in> set a" for c
  proof -
    have z: "\<forall>q. in_box vs ps c q \<longrightarrow> elem d1 q = 0" using za that by blast
    from hotspot_loop_outside_zero_box [OF assms(1-4) w1(3) w1(1,2) z lp]
    obtain new' where "cs' = cs1 @ new'" "\<forall>c' \<in> set new'. \<not> in_box vs ps c c'" by blast
    then show ?thesis using new(1) by simp
  qed
  have sep: "\<not> in_box vs ps ((a @ new) ! i) ((a @ new) ! j)"
    if ij: "i < j" "j < length (a @ new)" for i j
  proof (cases a)
    case Nil
    then show ?thesis using new(4) ij by simp
  next
    case (Cons c r)
    then have a1: "a = [c]" using a(2) by simp
    show ?thesis
    proof (cases i)
      case 0
      then obtain j' where j: "j = Suc j'" "j' < length new" using ij a1 by (cases j) auto
      then have "new ! j' \<in> set new" by simp
      then show ?thesis using later [of c] a1 0 j by simp
    next
      case (Suc i')
      then obtain j' where j: "j = Suc j'" "i' < j'" "j' < length new"
        using ij a1 by (cases j) auto
      then show ?thesis using new(4) a1 Suc by simp
    qed
  qed
  have "cs' = cs @ (a @ new)" using a(1) new(1) by simp
  moreover have "length (a @ new) \<le> Suc n" using a(2) new(2) by simp
  moreover have "\<forall>c \<in> set (a @ new). in_bounds vs c" using za new(3) by auto
  ultimately show ?case using sep by blast
qed

section \<open>Hotspot Selector: suppression and separation\<close>

text \<open>
  C1, as stated, fails: the suppression zeroes the indices from c - h up to, not
  including, c + h around a center c (h the half-extent), so a later center can sit h
  voxels away from an earlier one, and two boxes of half-extent h around them overlap.
  On a volume of shape (2, 2, 6) whose mask is true at x = 2, 3, 4 of the row z = 1, y = 1,
  with patch size (2, 2, 4), the selector returns the centers (1, 1, 2) and (1, 1, 4);
  their boxes of half-extent (1, 1, 2) share the voxels x = 2 and x = 3 of that row.
\<close>

theorem find_hotspots_overlap_counterexample:
  "find_colocalization_hotspots
     \<lparr>shape = (2, 2, 6),
      data = [False, False, False, False, False, False,
              False, False, False, False, False, False,
              False, False, False, False, False, False,
              False, False, True, True, True, False]\<rparr> 3 (2, 2, 4)
     = Inr [(1, 1, 2), (1, 1, 4)]
   \<and> boxes_overlap (2, 2, 4) (1, 1, 2) (1, 1, 4)"
  by code_simp

text \<open>
  C1, amended. For every density map without negative values on a non-empty volume,
  every count and every positive patch size, the selection loop raises nothing, returns
  at most count centers, all inside the volume, and no returned center lies in the
  suppressed region of a center returned before it: on some axis the later center is
  below c - patch_size // 2 or at least c + patch_size // 2, c the earlier center.
\<close>

theorem hotspot_loop_later_center_outside_box:
  assumes "well_formed d" "shape d = vs" "0 < size3 vs" "nonneg d"
    and "0 < pz" "0 < py" "0 < px"
  shows "\<exists>d' cs. hotspot_loop n vs (pz, py, px) (d, []) = Inr (d', cs) \<and> length cs \<le> n
           \<and> (\<forall>c \<in> set cs. in_bounds vs c)
           \<and> (\<forall>i j. i < j \<and> j < length cs \<longrightarrow> \<not> in_box vs (pz, py, px) (cs ! i) (cs ! j))"
proof -
  have p: "0 \<le> fst (pz, py, px)" "0 \<le> fst (snd (pz, py, px))" "0 \<le> snd (snd (pz, py, px))"
    using assms(5-7) by simp_all
  from hotspot_loop_total [OF assms(1-3) p, of n "[]"] obtain d' cs where
    l: "hotspot_loop n vs (pz, py, px) (d, []) = Inr (d', cs)" by auto
  from hotspot_loop_separated [OF assms(3) p assms(4,1,2) l] show ?thesis using l by auto
qed

theorem hotspot_loop_later_center_outside_box_witness:
  "well_formed \<lparr>shape = (2, 2, 6),
       data = [0, 0, 0, 0, 0, 0, 0, 0, 0, 0, 0, 0, 0, 0, 0, 0, 0, 0, 0, 1, 2, 2, 1, 0 :: real]\<rparr>
   \<and> nonneg \<lparr>shape = (2, 2, 6),
       data = [0, 0, 0, 0, 0, 0, 0, 0, 0, 0, 0, 0, 0, 0, 0, 0, 0, 0, 0, 1, 2, 2, 1, 0]\<rparr>
   \<and> snd (projr (hotspot_loop 3 (2, 2, 6) (2, 2, 4)
        (\<lparr>shape = (2, 2, 6),
          data = [0, 0, 0, 0, 0, 0, 0, 0, 0, 0, 0, 0, 0, 0, 0, 0, 0, 0, 0, 1, 2, 2, 1, 0]\<rparr>, [])))
      = [(1, 1, 2), (1, 1, 4)]
   \<and> \<not> in_box (2, 2, 6) (2, 2, 4) (1, 1, 2) (1, 1, 4)"
proof -
  let ?d = "\<lparr>shape = (2, 2, 6),
       data = [0, 0, 0, 0, 0, 0, 0, 0, 0, 0, 0, 0, 0, 0, 0, 0, 0, 0, 0, 1, 2, 2, 1, 0 :: real]\<rparr>"
  have h: "well_formed ?d" "shape ?d = (2, 2, 6)" "0 < size3 (2, 2, 6)" "nonneg ?d"
    by (simp_all add: well_formed_def nonneg_def)
  have run: "snd (projr (hotspot_loop 3 (2, 2, 6) (2, 2, 4) (?d, []))) = [(1, 1, 2), (1, 1, 4)]"
    by code_simp
  from hotspot_loop_later_center_outside_box [OF h, of 2 2 4 3] obtain d' cs where
    l: "hotspot_loop 3 (2, 2, 6) (2, 2, 4) (?d, []) = Inr (d', cs)"
    and sep: "\<And>i j. i < j \<and> j < length cs \<Longrightarrow> \<not> in_box (2, 2, 6) (2, 2, 4) (cs ! i) (cs ! j)"
    by auto
  have cs: "cs = [(1, 1, 2), (1, 1, 4)]" using run l by simp
  have "\<not> in_box (2, 2, 6) (2, 2, 4) (1, 1, 2) (1, 1, 4)"
    using sep [of 0 1] by (simp add: cs)
  then show ?thesis using h run by simp
qed

text \<open>
  C3, as stated, fails: the box of half-extent h = patch_size // 2 centered at the
  candidate c reaches the index c + h, and the suppression writes the slice from c - h up
  to, not including, c + h. On the density map of shape (2, 2, 6) with the values
  1, 2, 2, 1 at x = 1, 2, 3, 4 of the row z = 1, y = 1 and patch size (2, 2, 4), the first
  candidate is (1, 1, 2); the index (1, 1, 4) lies in its box, keeps the value 1 after
  the suppression, and is the center that the next iteration accepts.
\<close>

theorem suppression_misses_box_face_counterexample:
  "argmax [0, 0, 0, 0, 0, 0, 0, 0, 0, 0, 0, 0, 0, 0, 0, 0, 0, 0, 0, 1, 2, 2, 1, 0] = Inr 20
   \<and> unravel_index (2, 2, 6) 20 = (1, 1, 2)
   \<and> in_closed_box (2, 2, 6) (2, 2, 4) (1, 1, 2) (1, 1, 4)
   \<and> hotspot_step (2, 2, 6) (2, 2, 4)
        (\<lparr>shape = (2, 2, 6),
          data = [0, 0, 0, 0, 0, 0, 0, 0, 0, 0, 0, 0, 0, 0, 0, 0, 0, 0, 0, 1, 2, 2, 1, 0]\<rparr>, [])
      = Inr (\<lparr>shape = (2, 2, 6),
          data = [0, 0, 0, 0, 0, 0, 0, 0, 0, 0, 0, 0, 0, 0, 0, 0, 0, 0, 0, 0, 0, 0, 1, 0]\<rparr>,
             [(1, 1, 2)])
   \<and> elem \<lparr>shape = (2, 2, 6),
          data = [0, 0, 0, 0, 0, 0, 0, 0, 0, 0, 0, 0, 0, 0, 0, 0, 0, 0, 0, 0, 0, 0, 1, 0 :: real]\<rparr>
        (1, 1, 4) = 1
   \<and> snd (projr (hotspot_loop 2 (2, 2, 6) (2, 2, 4)
        (\<lparr>shape = (2, 2, 6),
          data = [0, 0, 0, 0, 0, 0, 0, 0, 0, 0, 0, 0, 0, 0, 0, 0, 0, 0, 0, 1, 2, 2, 1, 0]\<rparr>, [])))
      = [(1, 1, 2), (1, 1, 4)]"
  by code_simp

text \<open>
  C3, amended. For every non-empty density map and every positive patch size, one
  iteration of the loop finds a candidate c and ends with the map zero at every index q
  of the volume with c - patch_size // 2 \<le> q < c + patch_size // 2 on all three axes
  (the slice that the code assigns, clamped to the array, which does not hold the
  indices at c + patch_size // 2), whether c was accepted or rejected. In every later
  iteration these zeros are still there, and when the map has no negative values, no
  center accepted later lies in that region.
\<close>

theorem suppression_zeroes_candidate_region:
  assumes "well_formed d" "shape d = vs" "0 < size3 vs"
    and "0 < pz" "0 < py" "0 < px"
  shows "\<exists>i d1.
           argmax (data d) = Inr i
           \<and> hotspot_step vs (pz, py, px) (d, cs) =
               Inr (d1, if valid_center (unravel_index vs i) vs (pz, py, px)
                        then cs @ [unravel_index vs i] else cs)
           \<and> (\<forall>q. in_box vs (pz, py, px) (unravel_index vs i) q \<longrightarrow> elem d1 q = 0)
           \<and> (\<forall>n cs1. \<exists>d2 new.
                 hotspot_loop n vs (pz, py, px) (d1, cs1) = Inr (d2, cs1 @ new)
                 \<and> (\<forall>q. in_box vs (pz, py, px) (unravel_index vs i) q \<longrightarrow> elem d2 q = 0)
                 \<and> (nonneg d \<longrightarrow>
                      (\<forall>c' \<in> set new. \<not> in_box vs (pz, py, px) (unravel_index vs i) c')))"
proof -
  let ?ps = "(pz, py, px)"
  have p: "0 \<le> fst ?ps" "0 \<le> fst (snd ?ps)" "0 \<le> snd (snd ?ps)"
    using assms(4-6) by simp_all
  from hotspot_step_spec [OF assms(1-3), of ?ps cs] obtain i where
    i: "argmax (data d) = Inr i" "in_bounds vs (unravel_index vs i)"
    and st: "hotspot_step vs ?ps (d, cs) =
               Inr (suppress d vs (unravel_index vs i) ?ps,
                    if valid_center (unravel_index vs i) vs ?ps
                    then cs @ [unravel_index vs i] else cs)"
    by blast
  define c where "c = unravel_index vs i"
  define d1 where "d1 = suppress d vs c ?ps"
  have inb: "in_bounds vs q" if "in_box vs ?ps c q" for q
    using that by (cases vs; cases c; cases q) simp
  have w1: "well_formed d1" "shape d1 = vs" using assms(1,2) by (simp_all add: d1_def)
  have z1: "elem d1 q = 0" if "in_box vs ?ps c q" for q
    using elem_suppress [OF assms(2) i(2) [folded c_def] inb [OF that] p] that
    by (simp add: d1_def)
  have later: "\<exists>d2 new. hotspot_loop n vs ?ps (d1, cs1) = Inr (d2, cs1 @ new)
                 \<and> (\<forall>q. in_box vs ?ps c q \<longrightarrow> elem d2 q = 0)
                 \<and> (nonneg d \<longrightarrow> (\<forall>c' \<in> set new. \<not> in_box vs ?ps c c'))" for n cs1
  proof -
    from hotspot_loop_total [OF w1 assms(3) p, of n cs1] obtain d2 new where
      l: "hotspot_loop n vs ?ps (d1, cs1) = Inr (d2, cs1 @ new)"
      and z2: "\<forall>q. in_bounds vs q \<and> elem d1 q = 0 \<longrightarrow> elem d2 q = 0"
      by blast
    have "\<forall>c' \<in> set new. \<not> in_box vs ?ps c c'" if "nonneg d"
    proof -
      have "nonneg d1" using that assms(1,2) by (simp add: d1_def nonneg_suppress)
      from hotspot_loop_outside_zero_box [OF assms(3) p this w1 _ l, of c] z1
      show ?thesis by auto
    qed
    then show ?thesis using l z2 z1 inb by blast
  qed
  have "argmax (data d) = Inr i
      \<and> hotspot_step vs ?ps (d, cs) =
          Inr (d1, if valid_center c vs ?ps then cs @ [c] else cs)
      \<and> (\<forall>q. in_box vs ?ps c q \<longrightarrow> elem d1 q = 0)
      \<and> (\<forall>n cs1. \<exists>d2 new.
            hotspot_loop n vs ?ps (d1, cs1) = Inr (d2, cs1 @ new)
            \<and> (\<forall>q. in_box vs ?ps c q \<longrightarrow> elem d2 q = 0)
            \<and> (nonneg d \<longrightarrow> (\<forall>c' \<in> set new. \<not> in_box vs ?ps c c')))"
    using i(1) st later z1 by (simp add: c_def d1_def)
  then show ?thesis unfolding c_def by (intro exI [of _ i] exI [of _ d1])
qed

theorem suppression_zeroes_candidate_region_witness:
  "well_formed \<lparr>shape = (1, 1, 4), data = [5, 1, 0, 3 :: real]\<rparr>
   \<and> argmax [5, 1, 0, 3] = Inr 0
   \<and> \<not> valid_center (0, 0, 0) (1, 1, 4) (2, 2, 2)
   \<and> (\<exists>d1. hotspot_step (1, 1, 4) (2, 2, 2) (\<lparr>shape = (1, 1, 4), data = [5, 1, 0, 3]\<rparr>, [])
              = Inr (d1, [])
          \<and> elem d1 (0, 0, 0) = 0)"
proof -
  let ?d = "\<lparr>shape = (1, 1, 4), data = [5, 1, 0, 3 :: real]\<rparr>"
  have h: "well_formed ?d" "shape ?d = (1, 1, 4)" "0 < size3 (1, 1, 4)"
    by (simp_all add: well_formed_def)
  have a: "argmax (data ?d) = Inr 0" by simp
  from suppression_zeroes_candidate_region [OF h, of 2 2 2 "[]"] obtain i d1 where
    i: "argmax (data ?d) = Inr i"
    and s: "hotspot_step (1, 1, 4) (2, 2, 2) (?d, []) =
               Inr (d1, if valid_center (unravel_index (1, 1, 4) i) (1, 1, 4) (2, 2, 2)
                        then [] @ [unravel_index (1, 1, 4) i] else [])"
    and z: "\<forall>q. in_box (1, 1, 4) (2, 2, 2) (unravel_index (1, 1, 4) i) q \<longrightarrow> elem d1 q = 0"
    by auto
  have i0: "i = 0" using i a by simp
  have "elem d1 (0, 0, 0) = 0" using z by (simp add: i0)
  moreover have "hotspot_step (1, 1, 4) (2, 2, 2) (?d, []) = Inr (d1, [])"
    using s by (simp add: i0)
  ultimately show ?thesis using h by auto
qed

section \<open>Facts about the density map\<close>

lemma ones_half:
  assumes "2 \<le> pz" "2 \<le> py" "2 \<le> px"
  shows "ones (half (pz, py, px)) =
           Inr (tabulate (nat (pz div 2), nat (py div 2), nat (px div 2)) (\<lambda>_. 1))"
    and "0 < nat (pz div 2)" "0 < nat (py div 2)" "0 < nat (px div 2)"
  using assms by (auto simp: ones_def half_def)

lemma sum_list_nonneg_map:
  "(\<And>x. x \<in> set xs \<Longrightarrow> 0 \<le> f x) \<Longrightarrow> 0 \<le> (\<Sum>x\<leftarrow>xs. (f x :: real))"
  by (induction xs) auto

lemma sum_list_zero_map:
  "(\<And>x. x \<in> set xs \<Longrightarrow> f x = 0) \<Longrightarrow> (\<Sum>x\<leftarrow>xs. (f x :: real)) = 0"
  by (induction xs) auto

lemma padded_elem_cases:
  assumes "well_formed a"
  shows "padded_elem a p = 0 \<or> padded_elem a p \<in> set (data a)"
proof -
  obtain Z Y X where sh: "shape a = (Z, Y, X)" by (cases "shape a") auto
  obtain i j k where p: "p = (i, j, k)" by (cases p) auto
  have "elem a (nat i, nat j, nat k) \<in> set (data a)"
    if "0 \<le> i \<and> i < int Z \<and> 0 \<le> j \<and> j < int Y \<and> 0 \<le> k \<and> k < int X"
  proof -
    have "in_bounds (shape a) (nat i, nat j, nat k)" using that by (simp add: sh) linarith
    from ravel_less [OF this] show ?thesis using assms by (simp add: elem_def well_formed_def)
  qed
  then show ?thesis by (auto simp: padded_elem_def sh p)
qed

lemma nonneg_tabulate: "(\<And>p. 0 \<le> f p) \<Longrightarrow> nonneg (tabulate sh f)"
  by (auto simp: nonneg_def tabulate_def)

lemma convolve_ones:
  assumes "well_formed a" "0 < kz" "0 < ky" "0 < kx"
  shows "\<exists>d. convolve a (tabulate (kz, ky, kx) (\<lambda>_. 1)) = Inr d \<and> shape d = shape a
            \<and> well_formed d
            \<and> (nonneg a \<longrightarrow> nonneg d)
            \<and> ((\<forall>v \<in> set (data a). v = 0) \<longrightarrow> (\<forall>v \<in> set (data d). v = 0))"
proof -
  let ?w = "tabulate (kz, ky, kx) (\<lambda>_. 1 :: real)"
  let ?F = "\<lambda>(z, y, x). \<Sum>a'\<leftarrow>[0..<kz]. \<Sum>b\<leftarrow>[0..<ky]. \<Sum>c\<leftarrow>[0..<kx].
                  elem ?w (a', b, c) *
                  padded_elem a (int z + int (kz div 2) - int a',
                                 int y + int (ky div 2) - int b,
                                 int x + int (kx div 2) - int c)"
  have c: "convolve a ?w = Inr (tabulate (shape a) ?F)"
    using assms(2-4) by (simp add: convolve_def)
  have w: "elem ?w (a', b, c) = 1" if "a' \<in> set [0..<kz]" "b \<in> set [0..<ky]" "c \<in> set [0..<kx]"
    for a' b c
    using that by (simp add: elem_tabulate)
  have nn: "0 \<le> ?F p" if "nonneg a" for p
  proof -
    have "0 \<le> padded_elem a q" for q
      using padded_elem_cases [OF assms(1), of q] that by (auto simp: nonneg_def)
    then show ?thesis
      by (cases p) (auto intro!: sum_list_nonneg_map simp: w)
  qed
  have zz: "?F p = 0" if "\<forall>v \<in> set (data a). v = 0" for p
  proof -
    have "padded_elem a q = 0" for q
      using padded_elem_cases [OF assms(1), of q] that by auto
    then show ?thesis
      by (cases p) (auto intro!: sum_list_zero_map)
  qed
  have "nonneg (tabulate (shape a) ?F)" if "nonneg a"
    using nn [OF that] by (intro nonneg_tabulate)
  moreover have "\<forall>v \<in> set (data (tabulate (shape a) ?F)). v = 0" if "\<forall>v \<in> set (data a). v = 0"
    using zz [OF that] by (auto simp: tabulate_def)
  ultimately show ?thesis using c by auto
qed

lemma astype_float_props:
  "shape (astype_float m) = shape m"
  "well_formed m \<Longrightarrow> well_formed (astype_float m)"
  "nonneg (astype_float m)"
  "\<forall>b \<in> set (data m). \<not> b \<Longrightarrow> \<forall>v \<in> set (data (astype_float m)). v = 0"
  by (auto simp: astype_float_def well_formed_def nonneg_def)

text \<open>With every extent of the patch at least 2, the density map is built without error.\<close>

lemma density_map_ok:
  assumes "well_formed m" "2 \<le> pz" "2 \<le> py" "2 \<le> px"
  shows "\<exists>k d. ones (half (pz, py, px)) = Inr k \<and> convolve (astype_float m) k = Inr d
           \<and> shape d = shape m \<and> well_formed d \<and> nonneg d
           \<and> ((\<forall>b \<in> set (data m). \<not> b) \<longrightarrow> (\<forall>v \<in> set (data d). v = 0))"
proof -
  note o = ones_half [OF assms(2-4)]
  from convolve_ones [OF astype_float_props(2) [OF assms(1)] o(2-4)]
  obtain d where "convolve (astype_float m)
        (tabulate (nat (pz div 2), nat (py div 2), nat (px div 2)) (\<lambda>_. 1)) = Inr d"
    "shape d = shape (astype_float m)" "well_formed d"
    "nonneg (astype_float m) \<longrightarrow> nonneg d"
    "(\<forall>v \<in> set (data (astype_float m)). v = 0) \<longrightarrow> (\<forall>v \<in> set (data d). v = 0)"
    by blast
  then show ?thesis using o(1) astype_float_props(1,3,4) [of m] by auto
qed

text \<open>On a map that is zero everywhere, the loop accepts nothing.\<close>

lemma all_zero_suppress:
  assumes "\<forall>v \<in> set (data d). v = 0" "well_formed d" "shape d = vs"
  shows "\<forall>v \<in> set (data (suppress d vs c ps)). v = 0"
proof -
  obtain Z Y X where vs: "vs = (Z, Y, X)" by (cases vs) auto
  have "elem d (unravel_index (Z, Y, X) i) = 0" if "i < Z * Y * X" for i
  proof -
    have "in_bounds (shape d) (unravel_index (Z, Y, X) i)"
      using unravel_in_bounds [of i "(Z, Y, X)"] that assms(3) by (simp add: vs)
    from ravel_less [OF this] show ?thesis
      using assms(1,2) by (simp add: elem_def well_formed_def)
  qed
  then show ?thesis
    using assms(3)
    by (auto simp: suppress_def setslice_def tabulate_def vs split: prod.splits)
qed

lemma hotspot_loop_all_zero:
  assumes "0 < size3 vs" "0 < pz div 2"
    and "\<forall>v \<in> set (data d). v = 0" "well_formed d" "shape d = vs"
  shows "\<exists>d'. hotspot_loop n vs (pz, py, px) (d, cs) = Inr (d', cs)"
  using assms(3-5)
proof (induction n arbitrary: d)
  case 0
  then show ?case by simp
next
  case (Suc n)
  have nn: "nonneg d" using Suc.prems(1) by (auto simp: nonneg_def)
  from hotspot_step_spec [OF Suc.prems(2,3) assms(1), of "(pz, py, px)" cs] obtain i where
    i: "i < size3 vs"
    and st: "hotspot_step vs (pz, py, px) (d, cs) =
               Inr (suppress d vs (unravel_index vs i) (pz, py, px),
                    if valid_center (unravel_index vs i) vs (pz, py, px)
                    then cs @ [unravel_index vs i] else cs)"
    and fst: "\<forall>j<i. data d ! j < data d ! i"
    by blast
  have "data d ! i = 0" using i Suc.prems by (simp add: well_formed_def)
  then have i0: "i = 0" using origin_first_zero [OF nn Suc.prems(2,3) i fst] by blast
  have "\<not> valid_center (unravel_index vs 0) vs (pz, py, px)"
    using assms(2) by (cases vs) simp
  then have st': "hotspot_step vs (pz, py, px) (d, cs) =
      Inr (suppress d vs (unravel_index vs 0) (pz, py, px), cs)"
    using st by (simp add: i0)
  define d1 where "d1 = suppress d vs (unravel_index vs 0) (pz, py, px)"
  have z1: "\<forall>v \<in> set (data d1). v = 0"
    unfolding d1_def by (rule all_zero_suppress [OF Suc.prems])
  have w1: "well_formed d1" "shape d1 = vs" using Suc.prems(3) by (simp_all add: d1_def)
  from Suc.IH [OF z1 w1] obtain d' where
    "hotspot_loop n vs (pz, py, px) (d1, cs) = Inr (d', cs)" by blast
  then show ?case using st' by (simp add: d1_def)
qed

section \<open>Facts about the scorer\<close>

lemma np_min_Min: "a \<noteq> [] \<Longrightarrow> np_min a = Inr (Min (set a))"
proof (cases a)
  case (Cons x xs)
  have "fold min xs x = Min (set (x # xs))" by (rule Min.set_eq_fold [symmetric])
  then show ?thesis unfolding Cons np_min_def by simp
qed simp

lemma np_max_Max: "a \<noteq> [] \<Longrightarrow> np_max a = Inr (Max (set a))"
proof (cases a)
  case (Cons x xs)
  have "fold max xs x = Max (set (x # xs))" by (rule Max.set_eq_fold [symmetric])
  then show ?thesis unfolding Cons np_max_def by simp
qed simp

lemma np_min_empty: "np_min [] = Inl ValueError"
  by (simp add: np_min_def)

lemma normalize_empty: "data ch = [] \<Longrightarrow> normalize ch = Inl ValueError"
  by (simp add: normalize_def np_min_empty)

lemma normalize_error: "normalize ch = Inl e \<Longrightarrow> e = ValueError"
  by (cases "data ch") (auto simp: normalize_def np_min_def np_max_def split: sum.splits)

lemma normalize_ok:
  assumes "data ch \<noteq> []"
  shows "normalize ch =
     Inr \<lparr>shape = shape ch,
          data = map (\<lambda>v. (v - Min (set (data ch))) /
                          (Max (set (data ch)) - Min (set (data ch)) + 1 / 10 ^ 10)) (data ch)\<rparr>"
  using assms by (simp add: normalize_def np_min_Min np_max_Max)

lemma normalize_nonneg:
  assumes "normalize ch = Inr n"
  shows "shape n = shape ch" "length (data n) = length (data ch)" "\<forall>v \<in> set (data n). 0 \<le> v"
proof -
  have ne: "data ch \<noteq> []" using assms normalize_empty [of ch] by auto
  let ?mn = "Min (set (data ch))" and ?mx = "Max (set (data ch))"
  have n: "n = \<lparr>shape = shape ch,
          data = map (\<lambda>v. (v - ?mn) / (?mx - ?mn + 1 / 10 ^ 10)) (data ch)\<rparr>"
    using assms normalize_ok [OF ne] by simp
  show "shape n = shape ch" "length (data n) = length (data ch)" by (simp_all add: n)
  have "?mn \<le> ?mx" using ne by (simp add: Min_le_iff)
  then have den: "0 < ?mx - ?mn + 1 / 10 ^ 10" by (simp add: add_nonneg_pos)
  have "0 \<le> (v - ?mn) / (?mx - ?mn + 1 / 10 ^ 10)" if "v \<in> set (data ch)" for v
  proof -
    have "?mn \<le> v" using that by simp
    then show ?thesis using den by simp
  qed
  then show "\<forall>v \<in> set (data n). 0 \<le> v" by (auto simp: n)
qed

lemma percentile_error: "percentile a q = Inl e \<Longrightarrow> e = ValueError"
  by (auto simp: percentile_def Let_def split: if_splits)

text \<open>The percentile of a non-empty array lies between two of its sorted values.\<close>

lemma percentile_between:
  assumes "a \<noteq> []" "0 \<le> q" "q \<le> 100"
  defines "k \<equiv> nat \<lfloor>real (length a - 1) * (q / 100)\<rfloor>"
  shows "\<exists>t. percentile a q = Inr t \<and> k < length a
           \<and> sort a ! k \<le> t \<and> t \<le> sort a ! min (k + 1) (length a - 1)"
proof -
  define n where "n = length a"
  define v where "v = real (n - 1) * (q / 100)"
  define g where "g = v - real k"
  define s where "s = sort a"
  have n: "0 < n" using assms(1) by (simp add: n_def)
  have "real (n - 1) * (q / 100) \<le> real (n - 1) * 1"
    using assms(3) by (intro mult_left_mono) simp_all
  then have v: "0 \<le> v" "v \<le> real (n - 1)"
    using assms(2) by (simp_all add: v_def)
  have k: "k = nat \<lfloor>v\<rfloor>" by (simp add: k_def v_def n_def)
  have kv: "real k \<le> v" "v < real k + 1"
    using v(1) unfolding k by linarith+
  have kn: "k \<le> n - 1" using kv(1) v(2) k by linarith
  have g: "0 \<le> g" "g < 1" using kv by (simp_all add: g_def)
  have len: "length s = n" by (simp add: s_def n_def)
  have le: "s ! k \<le> s ! min (k + 1) (n - 1)"
    using kn n len by (intro sorted_nth_mono) (simp_all add: s_def)
  define t where "t = s ! k + (s ! min (k + 1) (n - 1) - s ! k) * g"
  have "percentile a q = Inr t"
    using assms(1-3)
    by (simp add: percentile_def Let_def t_def s_def g_def v_def n_def k_def)
  moreover have "s ! k \<le> t" using le g by (simp add: t_def)
  moreover have "t \<le> s ! min (k + 1) (n - 1)"
  proof -
    have "(s ! min (k + 1) (n - 1) - s ! k) * g \<le> (s ! min (k + 1) (n - 1) - s ! k) * 1"
      using le g by (intro mult_left_mono) simp_all
    then show ?thesis by (simp add: t_def)
  qed
  moreover have "k < length a" using kn n unfolding n_def by linarith
  ultimately show ?thesis unfolding s_def n_def by blast
qed

lemma percentile_ge_all_lower_bound:
  assumes "a \<noteq> []" "0 \<le> q" "q \<le> 100" "\<forall>v \<in> set a. lo \<le> v" "\<forall>v \<in> set a. v \<le> hi"
  shows "\<exists>t. percentile a q = Inr t \<and> lo \<le> t \<and> t \<le> hi"
proof -
  from percentile_between [OF assms(1-3)] obtain t where
    t: "percentile a q = Inr t" "nat \<lfloor>real (length a - 1) * (q / 100)\<rfloor> < length a"
      "sort a ! nat \<lfloor>real (length a - 1) * (q / 100)\<rfloor> \<le> t"
      "t \<le> sort a ! min (nat \<lfloor>real (length a - 1) * (q / 100)\<rfloor> + 1) (length a - 1)"
    by blast
  have m: "sort a ! i \<in> set a" if "i < length a" for i
    using that by (metis length_sort nth_mem set_sort)
  have "min j (length a - 1) \<le> length a - 1" for j by simp
  moreover have "0 < length a" using assms(1) by simp
  ultimately have
    "min (nat \<lfloor>real (length a - 1) * (q / 100)\<rfloor> + 1) (length a - 1) < length a"
    by (metis One_nat_def Suc_pred less_Suc_eq_le)
  then show ?thesis using t m assms(4,5) by (meson order_trans)
qed

lemma broadcast_shapes_same: "broadcast_shapes sh sh = Some sh"
  by (cases sh) (simp add: broadcast_dim_def)

lemma broadcast_elem_in_bounds: "in_bounds (shape a) p \<Longrightarrow> broadcast_elem a p = elem a p"
  by (cases "shape a"; cases p) (auto simp: broadcast_elem_def)

lemma logical_and_same_shape:
  assumes "well_formed m1" "well_formed m2" "shape m1 = shape m2"
  shows "logical_and m1 m2 =
           Inr \<lparr>shape = shape m1, data = map (\<lambda>(a, b). a \<and> b) (zip (data m1) (data m2))\<rparr>"
proof -
  let ?sh = "shape m1"
  let ?F = "\<lambda>p. broadcast_elem m1 p \<and> broadcast_elem m2 p"
  have len: "length (data m1) = size3 ?sh" "length (data m2) = size3 ?sh"
    using assms by (simp_all add: well_formed_def)
  have "map (\<lambda>i. ?F (unravel_index ?sh i)) [0..<size3 ?sh]
      = map (\<lambda>(a, b). a \<and> b) (zip (data m1) (data m2))"
  proof (rule nth_equalityI)
    show "length (map (\<lambda>i. ?F (unravel_index ?sh i)) [0..<size3 ?sh])
        = length (map (\<lambda>(a, b). a \<and> b) (zip (data m1) (data m2)))"
      using len by simp
  next
    fix i assume "i < length (map (\<lambda>i. ?F (unravel_index ?sh i)) [0..<size3 ?sh])"
    then have i: "i < size3 ?sh" by simp
    have ib: "in_bounds ?sh (unravel_index ?sh i)" using i by (rule unravel_in_bounds)
    have "broadcast_elem m1 (unravel_index ?sh i) = data m1 ! i"
      using broadcast_elem_in_bounds [OF ib] by (simp add: elem_def ravel_unravel)
    moreover have "broadcast_elem m2 (unravel_index ?sh i) = data m2 ! i"
      using broadcast_elem_in_bounds [of m2 "unravel_index ?sh i"] ib assms(3)
      by (simp add: elem_def ravel_unravel)
    ultimately show "map (\<lambda>i. ?F (unravel_index ?sh i)) [0..<size3 ?sh] ! i
        = map (\<lambda>(a, b). a \<and> b) (zip (data m1) (data m2)) ! i"
      using i len by simp
  qed
  then show ?thesis
    using assms(3) by (simp add: logical_and_def broadcast_shapes_same tabulate_def)
qed

text \<open>
  What the scorer computes on two non-empty channels of one shape: the two normalized
  channels n1 and n2, the two thresholds t1 and t2, the mask of both, and the quotient of
  the two masked sums.
\<close>

lemma score_unfolded:
  assumes "well_formed ch1" "well_formed ch2" "shape ch1 = shape ch2" "0 < size3 (shape ch1)"
    and "0 \<le> p" "p \<le> 100"
  shows "\<exists>n1 n2 t1 t2.
           normalize ch1 = Inr n1 \<and> normalize ch2 = Inr n2
         \<and> percentile (data n1) p = Inr t1 \<and> percentile (data n2) p = Inr t2
         \<and> length (data n1) = size3 (shape ch1) \<and> length (data n2) = size3 (shape ch1)
         \<and> shape n1 = shape ch1 \<and> shape n2 = shape ch1
         \<and> (\<forall>v \<in> set (data n1). 0 \<le> v) \<and> 0 \<le> t1
         \<and> threshold_mask ch1 p = Inr (greater_mask n1 t1)
         \<and> threshold_mask ch2 p = Inr (greater_mask n2 t2)
         \<and> calculate_colocalization_score ch1 ch2 p =
             Inr (if 0 < mask_sum (greater_mask n1 t1)
                  then sum_list (map fst (filter snd (zip (data n1)
                         (map (\<lambda>(a, b). a \<and> b)
                            (zip (data (greater_mask n1 t1)) (data (greater_mask n2 t2)))))))
                       / sum_list (map fst (filter snd (zip (data n1) (data (greater_mask n1 t1)))))
                  else 0,
                  \<lparr>shape = shape ch1,
                   data = map (\<lambda>(a, b). a \<and> b)
                            (zip (data (greater_mask n1 t1)) (data (greater_mask n2 t2)))\<rparr>)"
proof -
  have ne: "data ch1 \<noteq> []" "data ch2 \<noteq> []"
    using assms(1-4) by (auto simp: well_formed_def)
  obtain n1 where n1: "normalize ch1 = Inr n1" using normalize_ok [OF ne(1)] by blast
  obtain n2 where n2: "normalize ch2 = Inr n2" using normalize_ok [OF ne(2)] by blast
  note p1 = normalize_nonneg [OF n1] and p2 = normalize_nonneg [OF n2]
  have ne': "data n1 \<noteq> []" "data n2 \<noteq> []" using p1(2) p2(2) ne by auto
  have "\<forall>v \<in> set (data n1). v \<le> Max (set (data n1))" by simp
  from percentile_ge_all_lower_bound [OF ne'(1) assms(5,6) p1(3) this]
  obtain t1 where t1: "percentile (data n1) p = Inr t1" "0 \<le> t1" by blast
  from percentile_between [OF ne'(2) assms(5,6)]
  obtain t2 where t2: "percentile (data n2) p = Inr t2" by blast
  let ?m1 = "greater_mask n1 t1" and ?m2 = "greater_mask n2 t2"
  have len: "length (data n1) = size3 (shape ch1)" "length (data n2) = size3 (shape ch1)"
    using p1(2) p2(2) assms(1-3) by (simp_all add: well_formed_def)
  have wm: "well_formed ?m1" "well_formed ?m2" "shape ?m1 = shape ?m2" "shape ?m1 = shape ch1"
    using len p1(1) p2(1) assms(3) by (simp_all add: greater_mask_def well_formed_def)
  let ?c = "\<lparr>shape = shape ch1,
             data = map (\<lambda>(a, b). a \<and> b) (zip (data ?m1) (data ?m2))\<rparr>"
  have la: "logical_and ?m1 ?m2 = Inr ?c"
    using logical_and_same_shape [OF wm(1-3)] wm(4) by simp
  have ms1: "masked_sum n1 ?c =
      Inr (sum_list (map fst (filter snd (zip (data n1) (data ?c)))))"
    using p1(1) by (simp add: masked_sum_def)
  have ms2: "masked_sum n1 ?m1 =
      Inr (sum_list (map fst (filter snd (zip (data n1) (data ?m1)))))"
    using p1(1) wm(4) by (simp add: masked_sum_def)
  have "calculate_colocalization_score ch1 ch2 p =
             Inr (if 0 < mask_sum ?m1
                  then sum_list (map fst (filter snd (zip (data n1) (data ?c))))
                       / sum_list (map fst (filter snd (zip (data n1) (data ?m1))))
                  else 0, ?c)"
    unfolding calculate_colocalization_score_def
    by (simp add: n1 n2 t1 t2 Let_def la ms1 ms2)
  moreover have "threshold_mask ch1 p = Inr ?m1" "threshold_mask ch2 p = Inr ?m2"
    by (simp_all add: threshold_mask_def n1 n2 t1 t2)
  ultimately show ?thesis using n1 n2 t1 t2 len p1(1,3) p2(1) assms(3)
    by (intro exI [of _ n1] exI [of _ n2] exI [of _ t1] exI [of _ t2]) simp
qed

lemma percentile_mono:
  assumes "a \<noteq> []" "0 \<le> q1" "q1 \<le> q2" "q2 \<le> 100"
  shows "\<exists>t1 t2. percentile a q1 = Inr t1 \<and> percentile a q2 = Inr t2 \<and> t1 \<le> t2"
proof -
  define n where "n = length a"
  define s where "s = sort a"
  define v1 where "v1 = real (n - 1) * (q1 / 100)"
  define v2 where "v2 = real (n - 1) * (q2 / 100)"
  define k1 where "k1 = nat \<lfloor>v1\<rfloor>"
  define k2 where "k2 = nat \<lfloor>v2\<rfloor>"
  define t1 where "t1 = s ! k1 + (s ! min (k1 + 1) (n - 1) - s ! k1) * (v1 - real k1)"
  define t2 where "t2 = s ! k2 + (s ! min (k2 + 1) (n - 1) - s ! k2) * (v2 - real k2)"
  have q: "0 \<le> q2" "q1 \<le> 100" using assms by simp_all
  have e1: "percentile a q1 = Inr t1"
    using assms(1,2) q(2)
    by (simp add: percentile_def Let_def t1_def s_def v1_def n_def k1_def)
  have e2: "percentile a q2 = Inr t2"
    using assms(1,4) q(1)
    by (simp add: percentile_def Let_def t2_def s_def v2_def n_def k2_def)
  have "\<exists>t. percentile a q1 = Inr t \<and> k1 < n \<and> s ! k1 \<le> t
          \<and> t \<le> s ! min (k1 + 1) (n - 1)"
    using percentile_between [OF assms(1,2) q(2)] unfolding k1_def v1_def n_def s_def .
  then have b1: "k1 < n" "s ! k1 \<le> t1" "t1 \<le> s ! min (k1 + 1) (n - 1)"
    using e1 by auto
  have "\<exists>t. percentile a q2 = Inr t \<and> k2 < n \<and> s ! k2 \<le> t
          \<and> t \<le> s ! min (k2 + 1) (n - 1)"
    using percentile_between [OF assms(1) q(1) assms(4)] unfolding k2_def v2_def n_def s_def .
  then have b2: "k2 < n" "s ! k2 \<le> t2" "t2 \<le> s ! min (k2 + 1) (n - 1)"
    using e2 by auto
  have v: "0 \<le> v1" "v1 \<le> v2"
    using assms(2,3) by (simp_all add: v1_def v2_def mult_left_mono)
  have k: "k1 \<le> k2" unfolding k1_def k2_def using v(2) by (intro nat_mono floor_mono)
  have srt: "sorted s" "length s = n" by (simp_all add: s_def n_def)
  have "t1 \<le> t2"
  proof (cases "k1 = k2")
    case True
    have "s ! k1 \<le> s ! min (k1 + 1) (n - 1)"
      using b1(1) srt by (intro sorted_nth_mono) simp_all
    then have "0 \<le> (s ! min (k1 + 1) (n - 1) - s ! k1) * (v2 - v1)"
      using v(2) by simp
    moreover have "t2 - t1 = (s ! min (k1 + 1) (n - 1) - s ! k1) * (v2 - v1)"
      unfolding t1_def t2_def True [symmetric] by (simp add: algebra_simps)
    ultimately show ?thesis by linarith
  next
    case False
    then have "min (k1 + 1) (n - 1) \<le> k2" using k by simp
    then have "s ! min (k1 + 1) (n - 1) \<le> s ! k2"
      using b2(1) srt by (intro sorted_nth_mono) simp_all
    then show ?thesis using b1(3) b2(2) by linarith
  qed
  then show ?thesis using e1 e2 by blast
qed

lemma greater_count_antimono:
  "t1 \<le> t2 \<Longrightarrow> length (filter (\<lambda>b. b) (map (\<lambda>v. t2 < v) xs))
                \<le> length (filter (\<lambda>b. b) (map (\<lambda>v. t1 < (v::real)) xs))"
  by (induction xs) auto

section \<open>Thresholder\<close>

text \<open>
  C8. For every non-empty channel (normalized or not) and all percentiles
  0 \<le> p1 \<le> p2 \<le> 100, both thresholds exist, the threshold at p1 is at most the one at
  p2, and the mask of the values above the threshold at p2 has at most as many true
  voxels as the mask at p1.
\<close>

theorem threshold_mask_count_antimono:
  assumes "data a \<noteq> []" "0 \<le> p1" "p1 \<le> p2" "p2 \<le> 100"
  shows "\<exists>t1 t2. percentile (data a) p1 = Inr t1 \<and> percentile (data a) p2 = Inr t2
           \<and> t1 \<le> t2
           \<and> mask_sum (greater_mask a t2) \<le> mask_sum (greater_mask a t1)"
proof -
  from percentile_mono [OF assms] obtain t1 t2 where
    t: "percentile (data a) p1 = Inr t1" "percentile (data a) p2 = Inr t2" "t1 \<le> t2"
    by blast
  have "mask_sum (greater_mask a t2) \<le> mask_sum (greater_mask a t1)"
    using greater_count_antimono [OF t(3)] by (simp add: mask_sum_def greater_mask_def)
  then show ?thesis using t by blast
qed

theorem threshold_mask_count_antimono_witness:
  "data \<lparr>shape = (1, 1, 4), data = [0, 1 / 4, 1 / 2, 1 :: real]\<rparr> \<noteq> []
   \<and> (0 :: real) \<le> 25 \<and> (25 :: real) \<le> 75 \<and> (75 :: real) \<le> 100
   \<and> percentile [0, 1 / 4, 1 / 2, 1] 25 = Inr (3 / 16)
   \<and> percentile [0, 1 / 4, 1 / 2, 1] 75 = Inr (5 / 8)
   \<and> mask_sum (greater_mask \<lparr>shape = (1, 1, 4), data = [0, 1 / 4, 1 / 2, 1]\<rparr> (5 / 8))
       \<le> mask_sum (greater_mask \<lparr>shape = (1, 1, 4), data = [0, 1 / 4, 1 / 2, 1]\<rparr> (3 / 16))"
proof -
  let ?a = "\<lparr>shape = (1, 1, 4), data = [0, 1 / 4, 1 / 2, 1 :: real]\<rparr>"
  have p: "percentile [0, 1 / 4, 1 / 2, 1] 25 = Inr (3 / 16)"
    "percentile [0, 1 / 4, 1 / 2, 1] 75 = Inr (5 / 8)"
    by code_simp+
  from threshold_mask_count_antimono [of ?a 25 75] obtain t1 t2 where
    t: "percentile (data ?a) 25 = Inr t1" "percentile (data ?a) 75 = Inr t2"
    and m: "mask_sum (greater_mask ?a t2) \<le> mask_sum (greater_mask ?a t1)"
    by auto
  have "t1 = 3 / 16" "t2 = 5 / 8" using t p by simp_all
  then have "mask_sum (greater_mask ?a (5 / 8)) \<le> mask_sum (greater_mask ?a (3 / 16))"
    using m by (simp only:)
  then show ?thesis using p by simp
qed


section \<open>Colocalization Scorer: the coefficient\<close>

text \<open>Over the real numbers the two ways of writing the scorer agree.\<close>

lemma normalize_exact: "normalize_in exact ch = normalize ch"
  by (cases "data ch")
    (simp_all add: normalize_in_def normalize_def np_min_def np_max_def exact_def Let_def)

lemma percentile_exact: "percentile_in exact a q = percentile a q"
  by (simp add: percentile_in_def percentile_def exact_def Let_def)

lemma greater_mask_exact: "greater_mask_in exact a t = greater_mask a t"
  by (simp add: greater_mask_in_def greater_mask_def exact_def)

lemma masked_sum_exact: "masked_sum_in exact a m = masked_sum a m"
  by (simp add: masked_sum_in_def masked_sum_def exact_def)

lemma ratio_exact: "ratio exact a b = a / b" "zero_float exact = 0"
  by (simp_all add: exact_def)

lemma score_exact:
  "calculate_colocalization_score_in exact ch1 ch2 p = calculate_colocalization_score ch1 ch2 p"
  unfolding calculate_colocalization_score_in_def calculate_colocalization_score_def
    normalize_exact percentile_exact greater_mask_exact masked_sum_exact ratio_exact ..

lemma threshold_mask_exact: "threshold_mask_in exact ch p = threshold_mask ch p"
  unfolding threshold_mask_in_def threshold_mask_def
    normalize_exact percentile_exact greater_mask_exact ..




section \<open>The path of an all-zero volume\<close>

lemma data_tabulate_const: "data (tabulate sh (\<lambda>_. c)) = replicate (size3 sh) c"
  by (simp add: tabulate_def map_replicate_const)

lemma find_hotspots_all_false:
  assumes "well_formed m" "0 < size3 (shape m)" "\<forall>b \<in> set (data m). \<not> b"
    and "2 \<le> pz" "2 \<le> py" "2 \<le> px"
  shows "find_colocalization_hotspots m n (pz, py, px) = Inr []"
proof -
  from density_map_ok [OF assms(1,4-6)] assms(3) obtain k d where
    k: "ones (half (pz, py, px)) = Inr k" "convolve (astype_float m) k = Inr d"
    and d: "shape d = shape m" "well_formed d" "\<forall>v \<in> set (data d). v = 0"
    by blast
  have "0 < pz div 2" using assms(4) by simp
  from hotspot_loop_all_zero [OF assms(2) this d(3) d(2) d(1), of "nat n" py px "[]"]
  obtain d' where "hotspot_loop (nat n) (shape m) (pz, py, px) (d, []) = Inr (d', [])"
    by blast
  then show ?thesis by (simp add: find_colocalization_hotspots_def k)
qed

text \<open>
  C7. For two all-zero channel volumes of one non-empty shape and percentile 50, the
  first mask is entirely false, the scorer returns the coefficient 0 and an entirely
  false colocalization mask, and the selector applied to that mask, with any count and
  any patch size whose extents are at least 2 (the default 64 among them), returns no
  center; nothing on this path raises.
\<close>

theorem all_zero_volume_path:
  assumes "0 < size3 sh" "2 \<le> pz" "2 \<le> py" "2 \<le> px"
  shows "threshold_mask (tabulate sh (\<lambda>_. 0)) 50 = Inr (tabulate sh (\<lambda>_. False))
       \<and> calculate_colocalization_score (tabulate sh (\<lambda>_. 0)) (tabulate sh (\<lambda>_. 0)) 50
           = Inr (0, tabulate sh (\<lambda>_. False))
       \<and> find_colocalization_hotspots (tabulate sh (\<lambda>_. False)) n (pz, py, px) = Inr []"
proof -
  let ?z = "tabulate sh (\<lambda>_. 0 :: real)"
  let ?f = "tabulate sh (\<lambda>_. False)"
  define N where "N = size3 sh"
  have N: "0 < N" using assms(1) by (simp add: N_def)
  have dz: "data ?z = replicate N 0" "shape ?z = sh" "well_formed ?z"
    by (simp_all add: data_tabulate_const N_def)
  have df: "?f = \<lparr>shape = sh, data = replicate N False\<rparr>"
    by (simp add: tabulate_def map_replicate_const N_def)
  have ne: "data ?z \<noteq> []" using N dz(1) by auto
  have mm: "Min (set (data ?z)) = 0" "Max (set (data ?z)) = 0" using N by (simp_all add: dz(1))
  have nz: "normalize ?z = Inr \<lparr>shape = sh, data = replicate N 0\<rparr>"
    using normalize_ok [OF ne] unfolding mm by (simp add: dz(1))
  have ne': "replicate N (0 :: real) \<noteq> []" using N by auto
  have "\<exists>t. percentile (replicate N (0 :: real)) 50 = Inr t \<and> 0 \<le> t \<and> t \<le> 0"
    by (rule percentile_ge_all_lower_bound [OF ne']) simp_all
  then have pz0: "percentile (replicate N (0 :: real)) 50 = Inr 0" by auto
  have gm: "greater_mask \<lparr>shape = sh, data = replicate N 0\<rparr> 0 = ?f"
    by (simp add: greater_mask_def df)
  have tm: "threshold_mask ?z 50 = Inr ?f"
    by (simp add: threshold_mask_def nz pz0 gm)
  from score_unfolded [OF dz(3) dz(3) refl, of 50] assms(1) obtain n1 n2 t1 t2 where
    u: "normalize ?z = Inr n1" "normalize ?z = Inr n2"
      "percentile (data n1) 50 = Inr t1" "percentile (data n2) 50 = Inr t2"
    and sc: "calculate_colocalization_score ?z ?z 50 =
             Inr (if 0 < mask_sum (greater_mask n1 t1)
                  then sum_list (map fst (filter snd (zip (data n1)
                         (map (\<lambda>(a, b). a \<and> b)
                            (zip (data (greater_mask n1 t1)) (data (greater_mask n2 t2)))))))
                       / sum_list (map fst (filter snd (zip (data n1) (data (greater_mask n1 t1)))))
                  else 0,
                  \<lparr>shape = shape ?z,
                   data = map (\<lambda>(a, b). a \<and> b)
                            (zip (data (greater_mask n1 t1)) (data (greater_mask n2 t2)))\<rparr>)"
    by (auto simp: dz(2))
  have n12: "n1 = \<lparr>shape = sh, data = replicate N 0\<rparr>" "n2 = \<lparr>shape = sh, data = replicate N 0\<rparr>"
    using u(1,2) nz by simp_all
  have t12: "t1 = 0" "t2 = 0" using u(3,4) pz0 by (simp_all add: n12)
  have g: "greater_mask n1 t1 = ?f" "greater_mask n2 t2 = ?f"
    using gm by (simp_all add: n12 t12)
  have ms: "mask_sum ?f = 0" by (simp add: mask_sum_def df)
  have cf: "\<lparr>shape = shape ?z, data = map (\<lambda>(a, b). a \<and> b) (zip (data ?f) (data ?f))\<rparr> = ?f"
    by (simp add: df dz(2) zip_replicate)
  have score: "calculate_colocalization_score ?z ?z 50 = Inr (0, ?f)"
    using sc unfolding g ms cf by simp
  have "well_formed ?f" "0 < size3 (shape ?f)" "\<forall>b \<in> set (data ?f). \<not> b"
    using assms(1) by (simp_all add: data_tabulate_const)
  from find_hotspots_all_false [OF this assms(2-4)] tm score show ?thesis by simp
qed

theorem all_zero_volume_path_witness:
  "0 < size3 (2, 3, 4) \<and> (2 :: int) \<le> 64
   \<and> calculate_colocalization_score (tabulate (2, 3, 4) (\<lambda>_. 0)) (tabulate (2, 3, 4) (\<lambda>_. 0)) 50
       = Inr (0, tabulate (2, 3, 4) (\<lambda>_. False))
   \<and> find_colocalization_hotspots (tabulate (2, 3, 4) (\<lambda>_. False)) 3 (64, 64, 64) = Inr []"
  using all_zero_volume_path [of "(2, 3, 4)" 64 64 64 3] by simp

section \<open>Invalid input\<close>

lemma score_empty_channel:
  assumes "data ch1 = [] \<or> data ch2 = []"
  shows "calculate_colocalization_score ch1 ch2 p = Inl ValueError"
proof (cases "data ch1 = []")
  case True
  then show ?thesis
    by (simp add: calculate_colocalization_score_def normalize_empty)
next
  case False
  then have "data ch2 = []" using assms by simp
  then show ?thesis
    using normalize_ok [OF False]
    by (simp add: calculate_colocalization_score_def normalize_empty)
qed

lemma score_unbroadcastable:
  assumes "broadcast_shapes (shape ch1) (shape ch2) = None"
  shows "calculate_colocalization_score ch1 ch2 p = Inl ValueError"
proof -
  have la: "logical_and (greater_mask n1 t1) (greater_mask n2 t2) = Inl ValueError"
    if "normalize ch1 = Inr n1" "normalize ch2 = Inr n2" for n1 n2 t1 t2
    using normalize_nonneg(1) [OF that(1)] normalize_nonneg(1) [OF that(2)] assms
    by (simp add: logical_and_def greater_mask_def)
  show ?thesis
    unfolding calculate_colocalization_score_def
    by (auto simp: Let_def la split: sum.splits dest: normalize_error percentile_error)
qed

lemma find_hotspots_bad_patch_size:
  assumes "pz \<le> 0 \<or> py \<le> 0 \<or> px \<le> 0"
  shows "find_colocalization_hotspots m n (pz, py, px) = Inl ValueError
       \<or> find_colocalization_hotspots m n (pz, py, px) = Inl RuntimeError"
proof (cases "pz div 2 < 0 \<or> py div 2 < 0 \<or> px div 2 < 0")
  case True
  then show ?thesis
    by (simp add: find_colocalization_hotspots_def ones_def half_def)
next
  case False
  then have o: "ones (half (pz, py, px)) =
      Inr (tabulate (nat (pz div 2), nat (py div 2), nat (px div 2)) (\<lambda>_. 1))"
    by (simp add: ones_def half_def)
  have "pz div 2 \<le> 0 \<or> py div 2 \<le> 0 \<or> px div 2 \<le> 0" using assms by auto
  then have "nat (pz div 2) = 0 \<or> nat (py div 2) = 0 \<or> nat (px div 2) = 0" by auto
  then have "convolve (astype_float m)
      (tabulate (nat (pz div 2), nat (py div 2), nat (px div 2)) (\<lambda>_. 1)) = Inl RuntimeError"
    by (auto simp: convolve_def)
  then show ?thesis by (simp add: find_colocalization_hotspots_def o)
qed

lemma find_hotspots_no_iterations:
  assumes "n \<le> 0" "2 \<le> pz" "2 \<le> py" "2 \<le> px"
  shows "find_colocalization_hotspots m n (pz, py, px) = Inr []"
proof -
  note o = ones_half [OF assms(2-4)]
  have "\<exists>d. convolve (astype_float m)
      (tabulate (nat (pz div 2), nat (py div 2), nat (px div 2)) (\<lambda>_. 1)) = Inr d"
    using o(2-4) by (simp add: convolve_def)
  then show ?thesis using assms(1) by (auto simp: find_colocalization_hotspots_def o(1))
qed

text \<open>
  C2, as stated, fails: the code checks none of its inputs and has no error of its own.
  A patch count of 0 or below raises nothing, the selector returns an empty list; and two
  channels of different shapes (1, 2, 2) and (1, 1, 2) are scored without error, the
  second being broadcast.
\<close>

theorem invalid_input_not_rejected_counterexample:
  "find_colocalization_hotspots
     \<lparr>shape = (1, 2, 2), data = [False, True, True, False]\<rparr> 0 (2, 2, 2) = Inr []
   \<and> find_colocalization_hotspots
     \<lparr>shape = (1, 2, 2), data = [False, True, True, False]\<rparr> (- 3) (2, 2, 2) = Inr []
   \<and> calculate_colocalization_score
       \<lparr>shape = (1, 2, 2), data = [0, 1, 1, 2]\<rparr> \<lparr>shape = (1, 1, 2), data = [0, 0]\<rparr> 50
     = Inr (0, \<lparr>shape = (1, 2, 2), data = [False, False, False, False]\<rparr>)"
  by code_simp

text \<open>
  C2, amended. An empty channel volume makes the scorer raise (ValueError, from the
  minimum of an empty array, its first operation) and return nothing; so do two channels
  whose shapes cannot be broadcast to one shape. A patch size with an extent of 0 or
  below makes the selector raise (ValueError or RuntimeError, when the kernel is built
  or convolved) before its loop. A patch count of 0 or below raises nothing: on a
  non-empty mask with patch extents of at least 2 the selector returns an empty list.
\<close>

theorem invalid_input_outcomes:
  "(data ch1 = [] \<or> data ch2 = [] \<longrightarrow>
      calculate_colocalization_score ch1 ch2 p = Inl ValueError)
   \<and> (broadcast_shapes (shape ch1) (shape ch2) = None \<longrightarrow>
      calculate_colocalization_score ch1 ch2 p = Inl ValueError)
   \<and> (pz \<le> 0 \<or> py \<le> 0 \<or> px \<le> 0 \<longrightarrow>
      find_colocalization_hotspots m n (pz, py, px) = Inl ValueError
      \<or> find_colocalization_hotspots m n (pz, py, px) = Inl RuntimeError)
   \<and> (n \<le> 0 \<and> 0 < size3 (shape m) \<and> 2 \<le> pz \<and> 2 \<le> py \<and> 2 \<le> px \<longrightarrow>
      find_colocalization_hotspots m n (pz, py, px) = Inr [])"
  using score_empty_channel [of ch1 ch2 p] score_unbroadcastable [of ch1 ch2 p]
    find_hotspots_bad_patch_size [of pz py px m n] find_hotspots_no_iterations [of n pz py px m]
  by blast

theorem invalid_input_outcomes_witness:
  "data \<lparr>shape = (0, 2, 2), data = [] :: real list\<rparr> = []
   \<and> broadcast_shapes (0, 2, 2) (1, 3, 2) = None
   \<and> calculate_colocalization_score \<lparr>shape = (0, 2, 2), data = []\<rparr>
        \<lparr>shape = (1, 3, 2), data = [0, 1, 2, 3, 4, 5]\<rparr> 50 = Inl ValueError
   \<and> (find_colocalization_hotspots
        \<lparr>shape = (1, 2, 2), data = [False, True, True, False]\<rparr> 3 (0, 2, 2) = Inl ValueError
      \<or> find_colocalization_hotspots
        \<lparr>shape = (1, 2, 2), data = [False, True, True, False]\<rparr> 3 (0, 2, 2) = Inl RuntimeError)
   \<and> find_colocalization_hotspots
        \<lparr>shape = (1, 2, 2), data = [False, True, True, False]\<rparr> 0 (2, 2, 2) = Inr []"
  using invalid_input_outcomes [of "\<lparr>shape = (0, 2, 2), data = []\<rparr>"
      "\<lparr>shape = (1, 3, 2), data = [0, 1, 2, 3, 4, 5]\<rparr>" 50 0 2 2
      "\<lparr>shape = (1, 2, 2), data = [False, True, True, False]\<rparr>" 3]
    invalid_input_outcomes [of "\<lparr>shape = (0, 2, 2), data = []\<rparr>"
      "\<lparr>shape = (1, 3, 2), data = [0, 1, 2, 3, 4, 5]\<rparr>" 50 2 2 2
      "\<lparr>shape = (1, 2, 2), data = [False, True, True, False]\<rparr>" 0]
  by (simp add: broadcast_dim_def)

section \<open>The selector on a store: what it leaves unchanged\<close>

lemma hotspot_loop_heap_frame:
  assumes "lookup h r = Some (FloatArray d)"
  shows "length (snd (hotspot_loop_heap n vs ps r (h, cs))) = length h
       \<and> (\<forall>a. a \<noteq> r \<longrightarrow> snd (hotspot_loop_heap n vs ps r (h, cs)) ! a = h ! a)
       \<and> fst (hotspot_loop_heap n vs ps r (h, cs)) =
           (case hotspot_loop n vs ps (d, cs) of Inl e \<Rightarrow> Inl e | Inr (d', cs') \<Rightarrow> Inr cs')"
  using assms
proof (induction n arbitrary: h d cs)
  case 0
  then show ?case by simp
next
  case (Suc n)
  show ?case
  proof (cases "hotspot_step vs ps (d, cs)")
    case (Inl e)
    then show ?thesis using Suc.prems by simp
  next
    case (Inr st)
    obtain d1 cs1 where st: "st = (d1, cs1)" by (cases st) auto
    have r: "r < length h" using Suc.prems by (simp add: lookup_def split: if_splits)
    have l1: "lookup (h[r := FloatArray d1]) r = Some (FloatArray d1)"
      using r by (simp add: lookup_def)
    note ih = Suc.IH [OF l1, of cs1]
    have eq: "hotspot_loop_heap (Suc n) vs ps r (h, cs)
        = hotspot_loop_heap n vs ps r (h[r := FloatArray d1], cs1)"
      using Suc.prems Inr st by simp
    have pure: "hotspot_loop (Suc n) vs ps (d, cs) = hotspot_loop n vs ps (d1, cs1)"
      using Inr st by simp
    show ?thesis unfolding eq pure using ih by simp
  qed
qed

text \<open>
  C10. Called with a reference to the colocalization mask, the selector returns what
  it returns on the value of the mask, and afterwards the cell of the mask, like every
  other array that existed before the call, holds what it held: the arrays that the call
  writes (the kernel, the float copy of the mask and the density map) are allocated by
  the call. This holds for every count and patch size, also when the call raises.
\<close>

theorem find_hotspots_leaves_mask_unchanged:
  assumes "lookup h mask_ref = Some (BoolArray coloc_mask)"
  shows "fst (find_colocalization_hotspots_heap h mask_ref num_patches patch_size)
           = find_colocalization_hotspots coloc_mask num_patches patch_size
       \<and> lookup (snd (find_colocalization_hotspots_heap h mask_ref num_patches patch_size))
           mask_ref = Some (BoolArray coloc_mask)
       \<and> take (length h) (snd (find_colocalization_hotspots_heap h mask_ref num_patches
           patch_size)) = h"
proof -
  let ?res = "find_colocalization_hotspots_heap h mask_ref num_patches patch_size"
  have r: "mask_ref < length h" "h ! mask_ref = BoolArray coloc_mask"
    using assms by (simp_all add: lookup_def split: if_splits)
  have main: "fst ?res = find_colocalization_hotspots coloc_mask num_patches patch_size
      \<and> take (length h) (snd ?res) = h"
  proof (cases "ones (half patch_size)")
    case (Inl e)
    then show ?thesis
      using assms
      by (simp add: find_colocalization_hotspots_heap_def find_colocalization_hotspots_def)
  next
    case k: (Inr k)
    show ?thesis
    proof (cases "convolve (astype_float coloc_mask) k")
      case (Inl e)
      then show ?thesis
        using assms k
        by (simp add: find_colocalization_hotspots_heap_def find_colocalization_hotspots_def
            alloc_def)
    next
      case d: (Inr d)
      let ?h3 = "h @ [FloatArray k, FloatArray (astype_float coloc_mask), FloatArray d]"
      let ?r = "Suc (Suc (length h))"
      let ?loop = "hotspot_loop_heap (nat num_patches) (shape coloc_mask) patch_size ?r (?h3, [])"
      have res: "?res = ?loop"
        using assms k d by (simp add: find_colocalization_hotspots_heap_def alloc_def)
      have l: "lookup ?h3 ?r = Some (FloatArray d)"
        by (simp add: lookup_def nth_append)
      from hotspot_loop_heap_frame [OF l, of "nat num_patches" "shape coloc_mask" patch_size "[]"]
      have len: "length (snd ?loop) = length ?h3"
        and same: "\<And>a. a \<noteq> ?r \<Longrightarrow> snd ?loop ! a = ?h3 ! a"
        and val: "fst ?loop = (case hotspot_loop (nat num_patches) (shape coloc_mask) patch_size
            (d, []) of Inl e \<Rightarrow> Inl e | Inr (d', cs') \<Rightarrow> Inr cs')"
        by blast+
      have "take (length h) (snd ?loop) = h"
      proof (rule nth_equalityI)
        show "length (take (length h) (snd ?loop)) = length h" using len by simp
      next
        fix i assume "i < length (take (length h) (snd ?loop))"
        then have i: "i < length h" by simp
        then show "take (length h) (snd ?loop) ! i = h ! i"
          using same [of i] by (simp add: nth_append)
      qed
      moreover have "fst ?loop = find_colocalization_hotspots coloc_mask num_patches patch_size"
        using val k d by (simp add: find_colocalization_hotspots_def split: sum.splits)
      ultimately show ?thesis unfolding res by simp
    qed
  qed
  then have "snd ?res ! mask_ref = h ! mask_ref" "mask_ref < length (snd ?res)"
    using r(1) by (metis nth_take, metis length_take min_less_iff_conj)
  then show ?thesis using main r(2) by (simp add: lookup_def)
qed

theorem find_hotspots_leaves_mask_unchanged_witness:
  "lookup [BoolArray \<lparr>shape = (2, 2, 2),
              data = [False, False, False, False, False, False, False, True]\<rparr>] 0
     = Some (BoolArray \<lparr>shape = (2, 2, 2),
              data = [False, False, False, False, False, False, False, True]\<rparr>)
   \<and> fst (find_colocalization_hotspots_heap
        [BoolArray \<lparr>shape = (2, 2, 2),
              data = [False, False, False, False, False, False, False, True]\<rparr>] 0 2 (2, 2, 2))
     = Inr [(1, 1, 1)]
   \<and> lookup (snd (find_colocalization_hotspots_heap
        [BoolArray \<lparr>shape = (2, 2, 2),
              data = [False, False, False, False, False, False, False, True]\<rparr>] 0 2 (2, 2, 2))) 0
     = Some (BoolArray \<lparr>shape = (2, 2, 2),
              data = [False, False, False, False, False, False, False, True]\<rparr>)"
proof -
  let ?m = "\<lparr>shape = (2, 2, 2),
              data = [False, False, False, False, False, False, False, True]\<rparr>"
  have l: "lookup [BoolArray ?m] 0 = Some (BoolArray ?m)" by (simp add: lookup_def)
  have run: "find_colocalization_hotspots ?m 2 (2, 2, 2) = Inr [(1, 1, 1)]" by code_simp
  from find_hotspots_leaves_mask_unchanged [OF l, of 2 "(2, 2, 2)"] run l
  show ?thesis by simp
qed

end
